theory Spec2Isabelle
  imports Main "HOL-Library.Word"
begin

unbundle bit_operations_syntax

section \<open>Data model of KSCrashMonitor.c\<close>

text \<open>
  A \<open>KSCrashMonitorAPI *\<close> is an address; \<open>NULL\<close> is \<open>None\<close>. Two descriptors are the
  same object exactly when their addresses are equal.
\<close>

type_synonym addr = nat

text \<open>
  The contents of an event identifier buffer (\<open>char[40]\<close>): still zeroed, or the
  identifier written by one call of \<open>ksid_generate\<close>.
\<close>

datatype eventId = EmptyId | GeneratedId nat

record KSCrash_ExceptionHandlingPolicy =
  isFatal :: bool
  asyncSafety :: bool

text \<open>
  Modelled from the spec: KSCrashMonitorContext.h is not among the sources. The context
  has the shared fields that \<open>handleException\<close> writes; the sections that the monitors
  fill in are kept as the list of the monitors that have annotated the context, in the
  order of their calls.
\<close>

record KSCrash_MonitorContext =
  eventID :: eventId
  handlingCrash :: bool
  requiresAsyncSafety :: bool
  crashedDuringCrashHandling :: bool
  contextualInfo :: "addr list"

text \<open>
  Modelled from the spec: KSCrashMonitorAPI.h is not among the sources, and the
  registry calls whatever monitors are registered with it. A monitor object answers
  \<open>monitorId()\<close> (possibly \<open>NULL\<close>), \<open>monitorFlags()\<close> and \<open>isEnabled()\<close> from its
  fields, and \<open>setEnabled(b)\<close> stores \<open>b\<close> as the answer of \<open>isEnabled()\<close>, as
  \<open>setEnabled\<close> and \<open>isEnabled\<close> of KSCrashMonitor_System.m do with \<open>g_isEnabled\<close>.
\<close>

record KSCrashMonitorAPI =
  monitorId :: "string option"
  monitorFlags :: "32 word"
  isEnabled :: bool

text \<open>
  Modelled from the spec: the flags are a bitset with the members AsyncSafe and
  DebuggerUnsafe; each is one bit of the flag word.
\<close>

definition KSCrashMonitorFlagAsyncSafe :: "32 word" where
  "KSCrashMonitorFlagAsyncSafe = 1"

definition KSCrashMonitorFlagDebuggerUnsafe :: "32 word" where
  "KSCrashMonitorFlagDebuggerUnsafe = 2"

text \<open>
  Every call that leaves the core: a method of a monitor, or the application's event
  callback (with its address and the context it received).
\<close>

datatype call =
  CallInit addr
  | CallSetEnabled addr bool
  | CallAddContextualInfoToEvent addr
  | CallNotifyPostSystemEnable addr
  | CallOnExceptionEvent nat KSCrash_MonitorContext

text \<open>
  \<open>apis\<close> is the heap array of \<open>MonitorList\<close>, one cell per element; a cell that is
  \<open>NULL\<close> or was never written is \<open>None\<close>.
\<close>

record MonitorList =
  apis :: "addr option list"
  count :: nat
  capacity :: nat

definition INITIAL_MONITOR_CAPACITY :: nat where
  "INITIAL_MONITOR_CAPACITY = 15"

definition g_eventIdCount :: nat where
  "g_eventIdCount = 2"

text \<open>
  The globals of the file, the monitor objects that the descriptors point to, the
  number of identifiers generated so far, and the calls made so far (oldest first).
  \<open>g_monitorsLock\<close> is \<open>True\<close> while the lock is held. \<open>g_eventIds\<close> is the array of
  \<open>g_eventIdCount\<close> identifier buffers, by index; the code reads and writes it below
  \<open>g_eventIdCount\<close> only.
\<close>

record kscm =
  g_monitors :: MonitorList
  g_monitorsLock :: bool
  g_areMonitorsInitialized :: bool
  g_crashedDuringExceptionHandling :: bool
  g_currentPolicy :: KSCrash_ExceptionHandlingPolicy
  g_eventIds :: "nat \<Rightarrow> eventId"
  g_eventIdIdx :: nat
  g_onExceptionEvent :: "nat option"
  monitorObjects :: "addr \<Rightarrow> KSCrashMonitorAPI"
  ksidGenerated :: nat
  calls :: "call list"

section \<open>Collaborators\<close>

text \<open>
  A function that does not return to its caller has the result \<open>None\<close>: the thread
  blocks on \<open>g_monitorsLock\<close> that is held and that nothing in this sequential model
  releases, or it accesses a cell outside the array or calls through a \<open>NULL\<close> cell.
\<close>

definition os_unfair_lock_lock :: "kscm \<Rightarrow> kscm option" where
  "os_unfair_lock_lock s =
     (if g_monitorsLock s then None else Some (s\<lparr>g_monitorsLock := True\<rparr>))"

definition os_unfair_lock_trylock :: "kscm \<Rightarrow> bool \<times> kscm" where
  "os_unfair_lock_trylock s =
     (if g_monitorsLock s then (False, s) else (True, s\<lparr>g_monitorsLock := True\<rparr>))"

definition os_unfair_lock_unlock :: "kscm \<Rightarrow> kscm" where
  "os_unfair_lock_unlock s = s\<lparr>g_monitorsLock := False\<rparr>"

text \<open>
  Modelled from the spec: KSID.c is not among the sources. \<open>ksid_generate\<close> writes a
  freshly generated unique identifier: the identifier of the n-th call is
  \<open>GeneratedId n\<close>.
\<close>

definition ksid_generate :: "kscm \<Rightarrow> eventId \<times> kscm" where
  "ksid_generate s = (GeneratedId (ksidGenerated s), s\<lparr>ksidGenerated := ksidGenerated s + 1\<rparr>)"

text \<open>
  Modelled from the spec: KSString.c is not among the sources. The comparison is 0
  exactly when both strings are equal (or both \<open>NULL\<close>); the callers here test the
  result against 0 only, and every other result is given as 1.
\<close>

definition ksstring_safeStrcmp :: "string option \<Rightarrow> string option \<Rightarrow> int" where
  "ksstring_safeStrcmp str1 str2 = (if str1 = str2 then 0 else 1)"

text \<open>The methods of the monitor at an address.\<close>

definition api_monitorId :: "addr \<Rightarrow> kscm \<Rightarrow> string option" where
  "api_monitorId a s = monitorId (monitorObjects s a)"

definition api_monitorFlags :: "addr \<Rightarrow> kscm \<Rightarrow> 32 word" where
  "api_monitorFlags a s = monitorFlags (monitorObjects s a)"

definition api_isEnabled :: "addr \<Rightarrow> kscm \<Rightarrow> bool" where
  "api_isEnabled a s = isEnabled (monitorObjects s a)"

definition api_setEnabled :: "addr \<Rightarrow> bool \<Rightarrow> kscm \<Rightarrow> kscm" where
  "api_setEnabled a b s =
     s\<lparr>monitorObjects := (monitorObjects s)(a := (monitorObjects s a)\<lparr>isEnabled := b\<rparr>),
       calls := calls s @ [CallSetEnabled a b]\<rparr>"

definition api_init :: "addr \<Rightarrow> kscm \<Rightarrow> kscm" where
  "api_init a s = s\<lparr>calls := calls s @ [CallInit a]\<rparr>"

definition api_notifyPostSystemEnable :: "addr \<Rightarrow> kscm \<Rightarrow> kscm" where
  "api_notifyPostSystemEnable a s = s\<lparr>calls := calls s @ [CallNotifyPostSystemEnable a]\<rparr>"

definition api_addContextualInfoToEvent ::
  "addr \<Rightarrow> KSCrash_MonitorContext \<Rightarrow> kscm \<Rightarrow> KSCrash_MonitorContext \<times> kscm" where
  "api_addContextualInfoToEvent a context s =
     (context\<lparr>contextualInfo := contextualInfo context @ [a]\<rparr>,
      s\<lparr>calls := calls s @ [CallAddContextualInfoToEvent a]\<rparr>)"

text \<open>Reading cell \<open>i\<close> of the array: \<open>None\<close> outside the array.\<close>

definition readCell :: "MonitorList \<Rightarrow> nat \<Rightarrow> addr option option" where
  "readCell list i = (if i < length (apis list) then Some (apis list ! i) else None)"

text \<open>Writing cell \<open>i\<close> of the array: \<open>None\<close> outside the array.\<close>

definition writeCell :: "MonitorList \<Rightarrow> nat \<Rightarrow> addr option \<Rightarrow> MonitorList option" where
  "writeCell list i v =
     (if i < length (apis list) then Some (list\<lparr>apis := (apis list)[i := v]\<rparr>) else None)"

text \<open>
  \<open>realloc\<close> to \<open>n\<close> cells keeps the cells that fit; the new ones are not written yet.
\<close>

definition realloc :: "addr option list \<Rightarrow> nat \<Rightarrow> addr option list" where
  "realloc cells n = take n cells @ replicate (n - length cells) None"

section \<open>Internal functions\<close>

definition addMonitor :: "MonitorList \<Rightarrow> addr \<Rightarrow> MonitorList option" where
  "addMonitor list api =
     (let list1 =
        (if count list \<ge> capacity list
         then (let cap = (if capacity list > 0 then capacity list * 2 else 2)
               in list\<lparr>capacity := cap, apis := realloc (apis list) cap\<rparr>)
         else list)
      in map_option (\<lambda>l. l\<lparr>count := count list1 + 1\<rparr>)
           (writeCell list1 (count list1) (Some api)))"

text \<open>
  The loop of \<open>removeMonitor\<close> from index \<open>i\<close>; the list is \<open>g_monitors\<close>, the only
  list the function is called with. It stops at the first cell equal to \<open>api\<close>.
\<close>

function removeMonitor_loop :: "nat \<Rightarrow> addr \<Rightarrow> kscm \<Rightarrow> kscm option" where
  "removeMonitor_loop i api s =
     (let list = g_monitors s in
      if i < count list then
        (case readCell list i of
           None \<Rightarrow> None
         | Some c \<Rightarrow>
             if c = Some api then
               (let s1 = api_setEnabled api False s in
                case readCell list (count list - 1) of
                  None \<Rightarrow> None
                | Some lastc \<Rightarrow>
                    (case writeCell list i lastc of
                       None \<Rightarrow> None
                     | Some list1 \<Rightarrow>
                         (let list2 = list1\<lparr>count := count list1 - 1\<rparr> in
                          case writeCell list2 (count list2) None of
                            None \<Rightarrow> None
                          | Some list3 \<Rightarrow> Some (s1\<lparr>g_monitors := list3\<rparr>))))
             else removeMonitor_loop (i + 1) api s)
      else Some s)"
  by pat_completeness auto
termination
  by (relation "measure (\<lambda>(i, api, s). count (g_monitors s) - i)") auto

definition removeMonitor :: "addr option \<Rightarrow> kscm \<Rightarrow> kscm option" where
  "removeMonitor api s =
     (case api of None \<Rightarrow> Some s | Some a \<Rightarrow> removeMonitor_loop 0 a s)"

definition freeMonitorFuncList :: "kscm \<Rightarrow> kscm" where
  "freeMonitorFuncList s =
     s\<lparr>g_monitors := \<lparr>apis = [], count = 0, capacity = 0\<rparr>,
       g_areMonitorsInitialized := False\<rparr>"

function regenerateEventIds_loop :: "nat \<Rightarrow> kscm \<Rightarrow> kscm" where
  "regenerateEventIds_loop i s =
     (if i < g_eventIdCount then
        (let (ident, s1) = ksid_generate s
         in regenerateEventIds_loop (i + 1) (s1\<lparr>g_eventIds := (g_eventIds s1)(i := ident)\<rparr>))
      else s)"
  by pat_completeness auto
termination
  by (relation "measure (\<lambda>(i, s). g_eventIdCount - i)") auto

definition regenerateEventIds :: "kscm \<Rightarrow> kscm" where
  "regenerateEventIds s = (regenerateEventIds_loop 0 s)\<lparr>g_eventIdIdx := 0\<rparr>"

definition init :: "kscm \<Rightarrow> kscm" where
  "init s =
     (if g_areMonitorsInitialized s then s
      else s\<lparr>g_areMonitorsInitialized := True,
             g_monitors := \<lparr>apis = replicate INITIAL_MONITOR_CAPACITY None, count = 0,
                             capacity = INITIAL_MONITOR_CAPACITY\<rparr>\<rparr>)"

definition kscm_resetState :: "kscm \<Rightarrow> kscm option" where
  "kscm_resetState s =
     map_option
       (\<lambda>s1. regenerateEventIds
          ((os_unfair_lock_unlock (freeMonitorFuncList s1))
             \<lparr>g_currentPolicy := \<lparr>isFatal = False, asyncSafety = False\<rparr>,
              g_crashedDuringExceptionHandling := False,
              g_onExceptionEvent := None\<rparr>))
       (os_unfair_lock_lock s)"

section \<open>API\<close>

definition kscm_setEventCallback :: "nat option \<Rightarrow> kscm \<Rightarrow> kscm" where
  "kscm_setEventCallback onEvent s = (init s)\<lparr>g_onExceptionEvent := onEvent\<rparr>"

function kscm_disableAllMonitors_loop :: "nat \<Rightarrow> kscm \<Rightarrow> kscm option" where
  "kscm_disableAllMonitors_loop i s =
     (if i < count (g_monitors s) then
        (case readCell (g_monitors s) i of
           Some (Some api) \<Rightarrow> kscm_disableAllMonitors_loop (i + 1) (api_setEnabled api False s)
         | _ \<Rightarrow> None)
      else Some s)"
  by pat_completeness auto
termination
  by (relation "measure (\<lambda>(i, s). count (g_monitors s) - i)") (auto simp: api_setEnabled_def)

definition kscm_disableAllMonitors :: "kscm \<Rightarrow> kscm option" where
  "kscm_disableAllMonitors s =
     (case os_unfair_lock_lock s of
        None \<Rightarrow> None
      | Some s1 \<Rightarrow> map_option os_unfair_lock_unlock (kscm_disableAllMonitors_loop 0 s1))"

definition notifyException :: "KSCrash_ExceptionHandlingPolicy \<Rightarrow> kscm \<Rightarrow> (bool \<times> kscm) option" where
  "notifyException recommendations s =
     (let s1 = s\<lparr>g_currentPolicy := (g_currentPolicy s)
                  \<lparr>asyncSafety := asyncSafety (g_currentPolicy s) \<or> asyncSafety recommendations\<rparr>\<rparr>
      in if \<not> isFatal recommendations then Some (False, s1)
         else
           (let s2 = (if isFatal (g_currentPolicy s1)
                      then s1\<lparr>g_crashedDuringExceptionHandling := True\<rparr> else s1);
                s3 = s2\<lparr>g_currentPolicy := (g_currentPolicy s2)\<lparr>isFatal := True\<rparr>\<rparr>
            in if g_crashedDuringExceptionHandling s3
               then map_option (\<lambda>s4. (g_crashedDuringExceptionHandling s4, s4))
                      (kscm_disableAllMonitors s3)
               else Some (g_crashedDuringExceptionHandling s3, s3)))"

text \<open>The loop of \<open>handleException\<close> over the monitors, from index \<open>i\<close>.\<close>

function handleException_loop ::
  "nat \<Rightarrow> KSCrash_MonitorContext \<Rightarrow> kscm \<Rightarrow> (KSCrash_MonitorContext \<times> kscm) option" where
  "handleException_loop i context s =
     (if i < count (g_monitors s) then
        (case readCell (g_monitors s) i of
           Some (Some api) \<Rightarrow>
             if api_isEnabled api s
             then (let (context1, s1) = api_addContextualInfoToEvent api context s
                   in handleException_loop (i + 1) context1 s1)
             else handleException_loop (i + 1) context s
         | _ \<Rightarrow> None)
      else Some (context, s))"
  by pat_completeness auto
termination
  by (relation "measure (\<lambda>(i, context, s). count (g_monitors s) - i)")
    (auto simp: api_addContextualInfoToEvent_def)

text \<open>
  The part of \<open>handleException\<close> after the event identifier is resolved: the loop over
  the monitors, the unlock, the application's callback, the disabling of the monitors
  of a fatal event, and the clearing of \<open>handlingCrash\<close>.
\<close>

definition handleException_finish ::
  "KSCrash_MonitorContext \<Rightarrow> kscm \<Rightarrow> (KSCrash_MonitorContext \<times> kscm) option" where
  "handleException_finish context s =
     (case handleException_loop 0 context s of
        None \<Rightarrow> None
      | Some (context1, s1) \<Rightarrow>
          (let s2 = os_unfair_lock_unlock s1;
               s3 = (case g_onExceptionEvent s2 of
                       None \<Rightarrow> s2
                     | Some f \<Rightarrow> s2\<lparr>calls := calls s2 @ [CallOnExceptionEvent f context1]\<rparr>)
           in map_option (\<lambda>s4. (context1\<lparr>handlingCrash := False\<rparr>, s4))
                (if isFatal (g_currentPolicy s3) \<and> \<not> g_crashedDuringExceptionHandling s3
                 then kscm_disableAllMonitors s3 else Some s3)))"

text \<open>The three writes to the context with which \<open>handleException\<close> starts.\<close>

definition handleException_stamp :: "KSCrash_MonitorContext \<Rightarrow> kscm \<Rightarrow> KSCrash_MonitorContext" where
  "handleException_stamp context s =
     (let context1 = context\<lparr>handlingCrash := handlingCrash context \<or> isFatal (g_currentPolicy s)\<rparr>;
          context2 = context1\<lparr>requiresAsyncSafety := asyncSafety (g_currentPolicy s)\<rparr>
      in if g_crashedDuringExceptionHandling s
         then context2\<lparr>crashedDuringCrashHandling := True\<rparr> else context2)"

definition handleException ::
  "KSCrash_MonitorContext \<Rightarrow> kscm \<Rightarrow> (KSCrash_MonitorContext \<times> kscm) option" where
  "handleException context s =
     (let context3 = handleException_stamp context s;
          (locked, s1) = os_unfair_lock_trylock s
      in if locked = False then Some (context3, s1)
         else if \<not> asyncSafety (g_currentPolicy s1) then
           (let (ident, s2) = ksid_generate s1
            in handleException_finish (context3\<lparr>eventID := ident\<rparr>) s2)
         else if g_eventIdIdx s1 \<ge> g_eventIdCount then Some (context3, s1)
         else handleException_finish
                (context3\<lparr>eventID := g_eventIds s1 (g_eventIdIdx s1)\<rparr>)
                (s1\<lparr>g_eventIdIdx := g_eventIdIdx s1 + 1\<rparr>))"

text \<open>The first loop of \<open>kscm_activateMonitors\<close>, from index \<open>i\<close>.\<close>

function kscm_activateMonitors_enable :: "bool \<Rightarrow> bool \<Rightarrow> nat \<Rightarrow> kscm \<Rightarrow> kscm option" where
  "kscm_activateMonitors_enable isDebuggerUnsafe isAsyncSafeRequired i s =
     (if i < count (g_monitors s) then
        (case readCell (g_monitors s) i of
           Some (Some api) \<Rightarrow>
             (let flags = api_monitorFlags api s;
                  shouldEnable = True;
                  shouldEnable = (if isDebuggerUnsafe \<and> (flags AND KSCrashMonitorFlagDebuggerUnsafe) \<noteq> 0
                                  then False else shouldEnable);
                  shouldEnable = (if isAsyncSafeRequired \<and> \<not> (flags AND KSCrashMonitorFlagAsyncSafe) \<noteq> 0
                                  then False else shouldEnable)
              in kscm_activateMonitors_enable isDebuggerUnsafe isAsyncSafeRequired (i + 1)
                   (api_setEnabled api shouldEnable s))
         | _ \<Rightarrow> None)
      else Some s)"
  by pat_completeness auto
termination
  by (relation "measure (\<lambda>(d, a, i, s). count (g_monitors s) - i)")
    (auto simp: api_setEnabled_def)

text \<open>
  The second loop of \<open>kscm_activateMonitors\<close>, from index \<open>i\<close>: \<open>enabledMonitors\<close> is
  the copy so far when the buffer was allocated (\<open>haveBuffer\<close>).
\<close>

function kscm_activateMonitors_collect ::
  "bool \<Rightarrow> nat \<Rightarrow> addr list \<Rightarrow> bool \<Rightarrow> kscm \<Rightarrow> (addr list \<times> bool) option" where
  "kscm_activateMonitors_collect haveBuffer i enabledMonitors anyMonitorActive s =
     (if i < count (g_monitors s) then
        (case readCell (g_monitors s) i of
           Some (Some api) \<Rightarrow>
             if api_isEnabled api s
             then kscm_activateMonitors_collect haveBuffer (i + 1)
                    (if haveBuffer then enabledMonitors @ [api] else enabledMonitors) True s
             else kscm_activateMonitors_collect haveBuffer (i + 1) enabledMonitors anyMonitorActive s
         | _ \<Rightarrow> None)
      else Some (enabledMonitors, anyMonitorActive))"
  by pat_completeness auto
termination
  by (relation "measure (\<lambda>(h, i, e, a, s). count (g_monitors s) - i)") auto

text \<open>The third loop of \<open>kscm_activateMonitors\<close>, over the copy.\<close>

fun kscm_activateMonitors_notify :: "addr list \<Rightarrow> kscm \<Rightarrow> kscm" where
  "kscm_activateMonitors_notify [] s = s"
| "kscm_activateMonitors_notify (api # rest) s =
     kscm_activateMonitors_notify rest (api_notifyPostSystemEnable api s)"

text \<open>
  \<open>isBeingTraced\<close> is the result of \<open>ksdebug_isBeingTraced()\<close>, \<open>mallocOk\<close> says
  whether the allocation of the copy succeeds.
\<close>

definition kscm_activateMonitors :: "bool \<Rightarrow> bool \<Rightarrow> kscm \<Rightarrow> (bool \<times> kscm) option" where
  "kscm_activateMonitors isBeingTraced mallocOk s =
     (let s0 = init s;
          isDebuggerUnsafe = isBeingTraced;
          isAsyncSafeRequired = asyncSafety (g_currentPolicy s0);
          s1 = regenerateEventIds s0
      in case os_unfair_lock_lock s1 of
           None \<Rightarrow> None
         | Some s2 \<Rightarrow>
             (case kscm_activateMonitors_enable isDebuggerUnsafe isAsyncSafeRequired 0
                     (regenerateEventIds s2) of
                None \<Rightarrow> None
              | Some s3 \<Rightarrow>
                  (let monitorsCount = count (g_monitors s3);
                       haveBuffer = (monitorsCount > 0 \<and> mallocOk)
                   in case kscm_activateMonitors_collect haveBuffer 0 [] False s3 of
                        None \<Rightarrow> None
                      | Some (enabledMonitors, anyMonitorActive) \<Rightarrow>
                          Some (anyMonitorActive,
                                kscm_activateMonitors_notify enabledMonitors
                                  (os_unfair_lock_unlock s3)))))"

text \<open>The loop of \<open>kscm_addMonitor\<close> that looks for the new id, from index \<open>i\<close>.\<close>

function kscm_addMonitor_duplicate :: "string option \<Rightarrow> nat \<Rightarrow> kscm \<Rightarrow> bool option" where
  "kscm_addMonitor_duplicate newMonitorId i s =
     (if i < count (g_monitors s) then
        (case readCell (g_monitors s) i of
           Some (Some existingApi) \<Rightarrow>
             if ksstring_safeStrcmp (api_monitorId existingApi s) newMonitorId = 0 then Some True
             else kscm_addMonitor_duplicate newMonitorId (i + 1) s
         | _ \<Rightarrow> None)
      else Some False)"
  by pat_completeness auto
termination
  by (relation "measure (\<lambda>(n, i, s). count (g_monitors s) - i)") auto

definition kscm_addMonitor :: "addr option \<Rightarrow> kscm \<Rightarrow> (bool \<times> kscm) option" where
  "kscm_addMonitor api s =
     (let s0 = init s in
      case api of
        None \<Rightarrow> Some (False, s0)
      | Some a \<Rightarrow>
          (let newMonitorId = api_monitorId a s0 in
           if newMonitorId = None then Some (False, s0)
           else
             (case os_unfair_lock_lock s0 of
                None \<Rightarrow> None
              | Some s1 \<Rightarrow>
                  (case kscm_addMonitor_duplicate newMonitorId 0 s1 of
                     None \<Rightarrow> None
                   | Some True \<Rightarrow> Some (False, os_unfair_lock_unlock s1)
                   | Some False \<Rightarrow>
                       (let s2 = api_init a s1 in
                        case addMonitor (g_monitors s2) a of
                          None \<Rightarrow> None
                        | Some list \<Rightarrow> Some (True, os_unfair_lock_unlock (s2\<lparr>g_monitors := list\<rparr>)))))))"

definition kscm_removeMonitor :: "addr option \<Rightarrow> kscm \<Rightarrow> kscm option" where
  "kscm_removeMonitor api s =
     (case api of
        None \<Rightarrow> Some s
      | Some a \<Rightarrow>
          (case os_unfair_lock_lock s of
             None \<Rightarrow> None
           | Some s1 \<Rightarrow> map_option os_unfair_lock_unlock (removeMonitor api s1)))"

section \<open>Private API\<close>

definition kscm_regenerateEventIDs :: "kscm \<Rightarrow> kscm option" where
  "kscm_regenerateEventIDs s =
     map_option (\<lambda>s1. os_unfair_lock_unlock (regenerateEventIds s1)) (os_unfair_lock_lock s)"

definition kscm_clearAsyncSafetyState :: "kscm \<Rightarrow> kscm" where
  "kscm_clearAsyncSafetyState s =
     s\<lparr>g_currentPolicy := (g_currentPolicy s)\<lparr>asyncSafety := False\<rparr>\<rparr>"

section \<open>Observations and drivers used in the statements\<close>

text \<open>The cells of the registry that are in use: the first \<open>count\<close> cells of the array.\<close>

definition registered :: "kscm \<Rightarrow> addr option list" where
  "registered s = take (count (g_monitors s)) (apis (g_monitors s))"

text \<open>
  The registry is well formed when the array has \<open>capacity\<close> cells, \<open>count\<close> of them
  are in use and each of these holds a descriptor.
\<close>

definition registryOk :: "kscm \<Rightarrow> bool" where
  "registryOk s \<longleftrightarrow>
     capacity (g_monitors s) = length (apis (g_monitors s)) \<and>
     count (g_monitors s) \<le> length (apis (g_monitors s)) \<and>
     list_all (\<lambda>c. c \<noteq> None) (registered s)"

text \<open>The policy state: \<open>isFatal\<close>, \<open>asyncSafety\<close> and the crashed-during-handling flag.\<close>

definition policyState :: "kscm \<Rightarrow> bool \<times> bool \<times> bool" where
  "policyState s =
     (isFatal (g_currentPolicy s), asyncSafety (g_currentPolicy s),
      g_crashedDuringExceptionHandling s)"

text \<open>Two notifications in a row; the result is the final state.\<close>

definition notifyTwice ::
  "KSCrash_ExceptionHandlingPolicy \<Rightarrow> KSCrash_ExceptionHandlingPolicy \<Rightarrow> kscm \<Rightarrow> kscm option" where
  "notifyTwice r1 r2 s =
     (case notifyException r1 s of
        None \<Rightarrow> None
      | Some (crashed1, s1) \<Rightarrow> map_option snd (notifyException r2 s1))"

text \<open>\<open>handleException\<close> on each context of a list in turn.\<close>

fun handleAll ::
  "KSCrash_MonitorContext list \<Rightarrow> kscm \<Rightarrow> (KSCrash_MonitorContext list \<times> kscm) option" where
  "handleAll [] s = Some ([], s)"
| "handleAll (context # rest) s =
     (case handleException context s of
        None \<Rightarrow> None
      | Some (context1, s1) \<Rightarrow>
          (case handleAll rest s1 of
             None \<Rightarrow> None
           | Some (done, s2) \<Rightarrow> Some (context1 # done, s2)))"

text \<open>
  \<open>kscm_addMonitor\<close> on each descriptor of a list in turn; the result has the return
  values in the order of the calls.
\<close>

fun addAll :: "addr option list \<Rightarrow> kscm \<Rightarrow> (bool list \<times> kscm) option" where
  "addAll [] s = Some ([], s)"
| "addAll (api # rest) s =
     (case kscm_addMonitor api s of
        None \<Rightarrow> None
      | Some (added, s1) \<Rightarrow>
          (case addAll rest s1 of
             None \<Rightarrow> None
           | Some (results, s2) \<Rightarrow> Some (added # results, s2)))"

text \<open>How often a call occurs among the calls made.\<close>

definition callCount :: "call \<Rightarrow> kscm \<Rightarrow> nat" where
  "callCount c s = length (filter (\<lambda>x. x = c) (calls s))"

text \<open>The monitors in the given cells that report enabled, in the order of the cells.\<close>

definition enabledAmong :: "addr option list \<Rightarrow> kscm \<Rightarrow> addr list" where
  "enabledAmong cells s = [a. Some a \<leftarrow> cells, api_isEnabled a s]"

text \<open>The ids of the registered monitors, in the order of the cells.\<close>

definition registeredIds :: "kscm \<Rightarrow> string option list" where
  "registeredIds s = [api_monitorId a s. Some a \<leftarrow> registered s]"

text \<open>The ids that the descriptors of a list answer, without the \<open>NULL\<close>s.\<close>

definition requestedIds :: "addr option list \<Rightarrow> kscm \<Rightarrow> string list" where
  "requestedIds descriptors s = [i. Some a \<leftarrow> descriptors, Some i \<leftarrow> [api_monitorId a s]]"

subsection \<open>Concrete states\<close>

text \<open>
  Monitor objects at the addresses 1 to 4: \<open>A\<close> (async-safe), \<open>B\<close> (unsafe under a
  debugger), \<open>C\<close> (no flag) and a second object that also answers \<open>B\<close>; every other
  address holds a monitor without an id.
\<close>

definition exampleObjects :: "addr \<Rightarrow> KSCrashMonitorAPI" where
  "exampleObjects a =
     (if a = 1 then \<lparr>monitorId = Some ''A'', monitorFlags = 1, isEnabled = False\<rparr>
      else if a = 2 then \<lparr>monitorId = Some ''B'', monitorFlags = 2, isEnabled = False\<rparr>
      else if a = 3 then \<lparr>monitorId = Some ''C'', monitorFlags = 0, isEnabled = False\<rparr>
      else if a = 4 then \<lparr>monitorId = Some ''B'', monitorFlags = 3, isEnabled = False\<rparr>
      else \<lparr>monitorId = None, monitorFlags = 0, isEnabled = False\<rparr>)"

text \<open>The state in which the program starts: every global is zero.\<close>

definition startState :: kscm where
  "startState =
     \<lparr>g_monitors = \<lparr>apis = [], count = 0, capacity = 0\<rparr>,
      g_monitorsLock = False,
      g_areMonitorsInitialized = False,
      g_crashedDuringExceptionHandling = False,
      g_currentPolicy = \<lparr>isFatal = False, asyncSafety = False\<rparr>,
      g_eventIds = (\<lambda>i. EmptyId),
      g_eventIdIdx = 0,
      g_onExceptionEvent = None,
      monitorObjects = exampleObjects,
      ksidGenerated = 0,
      calls = []\<rparr>"

text \<open>
  A state with the monitors at 1, 2 and 3 registered and enabled and an event callback
  set.
\<close>

definition threeMonitors :: kscm where
  "threeMonitors =
     startState
       \<lparr>g_monitors := \<lparr>apis = [Some 1, Some 2, Some 3] @ replicate 12 None, count = 3,
                        capacity = 15\<rparr>,
        g_areMonitorsInitialized := True,
        g_onExceptionEvent := Some 7,
        monitorObjects := (\<lambda>a. (exampleObjects a)\<lparr>isEnabled := (a = 1 \<or> a = 2 \<or> a = 3)\<rparr>),
        calls := [CallInit 1, CallInit 2, CallInit 3]\<rparr>"

definition emptyContext :: KSCrash_MonitorContext where
  "emptyContext =
     \<lparr>eventID = EmptyId, handlingCrash = False, requiresAsyncSafety = False,
      crashedDuringCrashHandling = False, contextualInfo = []\<rparr>"

definition fatalRecommendation :: KSCrash_ExceptionHandlingPolicy where
  "fatalRecommendation = \<lparr>isFatal = True, asyncSafety = True\<rparr>"

definition nonFatalRecommendation :: KSCrash_ExceptionHandlingPolicy where
  "nonFatalRecommendation = \<lparr>isFatal = False, asyncSafety = True\<rparr>"

section \<open>The loops\<close>

declare removeMonitor_loop.simps [simp del]
declare regenerateEventIds_loop.simps [simp del]
declare kscm_disableAllMonitors_loop.simps [simp del]
declare handleException_loop.simps [simp del]
declare kscm_activateMonitors_enable.simps [simp del]
declare kscm_activateMonitors_collect.simps [simp del]
declare kscm_addMonitor_duplicate.simps [simp del]

subsection \<open>Cells of a well-formed registry\<close>

lemma registered_setEnabled [simp]: "registered (api_setEnabled a b s) = registered s"
  by (simp add: registered_def api_setEnabled_def)

lemma registryOk_setEnabled [simp]: "registryOk (api_setEnabled a b s) = registryOk s"
  by (simp add: registryOk_def api_setEnabled_def registered_def)

lemma g_monitors_setEnabled [simp]: "g_monitors (api_setEnabled a b s) = g_monitors s"
  by (simp add: api_setEnabled_def)

lemma length_registered:
  "count (g_monitors s) \<le> length (apis (g_monitors s)) \<Longrightarrow>
     length (registered s) = count (g_monitors s)"
  by (simp add: registered_def)

lemma readCell_registryOk:
  assumes "registryOk s" and "i < count (g_monitors s)"
  shows "\<exists>a. readCell (g_monitors s) i = Some (Some a)"
proof -
  from assms have len: "i < length (apis (g_monitors s))"
    by (simp add: registryOk_def)
  from assms have "registered s ! i \<noteq> None"
    by (simp add: registryOk_def list_all_length length_registered)
  with assms have "apis (g_monitors s) ! i \<noteq> None"
    by (simp add: registered_def)
  with len show ?thesis
    by (auto simp: readCell_def)
qed

lemma drop_registered:
  assumes "i < count (g_monitors s)" and "readCell (g_monitors s) i = Some c"
  shows "drop i (registered s) = c # drop (i + 1) (registered s)"
proof -
  from assms(2) have len: "i < length (apis (g_monitors s))" and c: "c = apis (g_monitors s) ! i"
    by (auto simp: readCell_def split: if_splits)
  with assms(1) have "i < length (registered s)"
    by (simp add: registered_def)
  then have "drop i (registered s) = registered s ! i # drop (Suc i) (registered s)"
    by (rule Cons_nth_drop_Suc [symmetric])
  with assms(1) c show ?thesis
    by (simp add: registered_def)
qed

lemma drop_registered_done:
  "\<not> i < count (g_monitors s) \<Longrightarrow> drop i (registered s) = []"
  by (simp add: registered_def)

subsection \<open>The loop of \<open>kscm_disableAllMonitors\<close>\<close>

lemma disable_loop_frame:
  "kscm_disableAllMonitors_loop i s = Some s' \<Longrightarrow>
     s' = s\<lparr>monitorObjects := monitorObjects s', calls := calls s'\<rparr>"
proof (induction i s rule: kscm_disableAllMonitors_loop.induct)
  case (1 i s)
  show ?case
  proof (cases "i < count (g_monitors s)")
    case False
    with "1.prems" show ?thesis by (simp add: kscm_disableAllMonitors_loop.simps)
  next
    case True
    with "1.prems" obtain api where c: "readCell (g_monitors s) i = Some (Some api)"
      and r: "kscm_disableAllMonitors_loop (i + 1) (api_setEnabled api False s) = Some s'"
      by (subst (asm) kscm_disableAllMonitors_loop.simps) (auto split: option.splits)
    from "1.IH"[OF True c refl r] show ?thesis
      by (simp add: api_setEnabled_def)
  qed
qed

lemma disable_loop_total:
  "registryOk s \<Longrightarrow> \<exists>s'. kscm_disableAllMonitors_loop i s = Some s'"
proof (induction i s rule: kscm_disableAllMonitors_loop.induct)
  case (1 i s)
  show ?case
  proof (cases "i < count (g_monitors s)")
    case False
    then show ?thesis by (simp add: kscm_disableAllMonitors_loop.simps)
  next
    case True
    with "1.prems" obtain api where c: "readCell (g_monitors s) i = Some (Some api)"
      using readCell_registryOk by blast
    from "1.prems" have "registryOk (api_setEnabled api False s)" by simp
    from "1.IH"[OF True c refl this] True c show ?thesis
      by (subst kscm_disableAllMonitors_loop.simps) simp
  qed
qed

lemma disable_loop_result:
  "kscm_disableAllMonitors_loop i s = Some s' \<Longrightarrow>
     monitorObjects s' =
       (\<lambda>a. if Some a \<in> set (drop i (registered s))
            then (monitorObjects s a)\<lparr>isEnabled := False\<rparr> else monitorObjects s a) \<and>
     calls s' = calls s @ map (\<lambda>c. CallSetEnabled (the c) False) (drop i (registered s))"
proof (induction i s rule: kscm_disableAllMonitors_loop.induct)
  case (1 i s)
  show ?case
  proof (cases "i < count (g_monitors s)")
    case False
    with "1.prems" show ?thesis
      by (simp add: kscm_disableAllMonitors_loop.simps drop_registered_done)
  next
    case True
    with "1.prems" obtain api where c: "readCell (g_monitors s) i = Some (Some api)"
      and r: "kscm_disableAllMonitors_loop (i + 1) (api_setEnabled api False s) = Some s'"
      by (subst (asm) kscm_disableAllMonitors_loop.simps) (auto split: option.splits)
    have d: "drop i (registered s) = Some api # drop (i + 1) (registered s)"
      using True c by (rule drop_registered)
    have reg: "registered (api_setEnabled api False s) = registered s" by simp
    from "1.IH"[OF True c refl r, unfolded reg] show ?thesis
      unfolding d by (auto simp: api_setEnabled_def fun_eq_iff)
  qed
qed

subsection \<open>\<open>kscm_disableAllMonitors\<close>\<close>

lemma disableAll_frame:
  assumes "kscm_disableAllMonitors s = Some s'"
  shows "s' = s\<lparr>monitorObjects := monitorObjects s', calls := calls s'\<rparr>"
    and "\<not> g_monitorsLock s"
proof -
  from assms show l: "\<not> g_monitorsLock s"
    by (auto simp: kscm_disableAllMonitors_def os_unfair_lock_lock_def split: if_splits)
  with assms obtain s2 where
    r: "kscm_disableAllMonitors_loop 0 (s\<lparr>g_monitorsLock := True\<rparr>) = Some s2"
    and s': "s' = os_unfair_lock_unlock s2"
    by (auto simp: kscm_disableAllMonitors_def os_unfair_lock_lock_def)
  from disable_loop_frame[OF r] l s'
  show "s' = s\<lparr>monitorObjects := monitorObjects s', calls := calls s'\<rparr>"
    by (cases s2) (simp add: os_unfair_lock_unlock_def)
qed

lemma disableAll_total:
  assumes "registryOk s" and "\<not> g_monitorsLock s"
  shows "\<exists>s'. kscm_disableAllMonitors s = Some s'"
proof -
  from assms(1) have "registryOk (s\<lparr>g_monitorsLock := True\<rparr>)"
    by (simp add: registryOk_def registered_def)
  from disable_loop_total[OF this, of 0] assms(2) show ?thesis
    by (auto simp: kscm_disableAllMonitors_def os_unfair_lock_lock_def)
qed

lemma disableAll_result:
  assumes "kscm_disableAllMonitors s = Some s'"
  shows "monitorObjects s' =
       (\<lambda>a. if Some a \<in> set (registered s)
            then (monitorObjects s a)\<lparr>isEnabled := False\<rparr> else monitorObjects s a)"
    and "calls s' = calls s @ map (\<lambda>c. CallSetEnabled (the c) False) (registered s)"
proof -
  from assms obtain s2 where
    r: "kscm_disableAllMonitors_loop 0 (s\<lparr>g_monitorsLock := True\<rparr>) = Some s2"
    and s': "s' = os_unfair_lock_unlock s2"
    by (auto simp: kscm_disableAllMonitors_def os_unfair_lock_lock_def split: if_splits)
  have reg: "registered (s\<lparr>g_monitorsLock := True\<rparr>) = registered s"
    by (simp add: registered_def)
  from disable_loop_result[OF r] s' reg
  show "monitorObjects s' =
       (\<lambda>a. if Some a \<in> set (registered s)
            then (monitorObjects s a)\<lparr>isEnabled := False\<rparr> else monitorObjects s a)"
    and "calls s' = calls s @ map (\<lambda>c. CallSetEnabled (the c) False) (registered s)"
    by (auto simp: os_unfair_lock_unlock_def fun_eq_iff)
qed

subsection \<open>\<open>notifyException\<close>\<close>

lemma notifyException_nonfatal:
  "\<not> isFatal r \<Longrightarrow>
     notifyException r s =
       Some (False, s\<lparr>g_currentPolicy := (g_currentPolicy s)
               \<lparr>asyncSafety := asyncSafety (g_currentPolicy s) \<or> asyncSafety r\<rparr>\<rparr>)"
  by (simp add: notifyException_def)

lemma notifyException_fatal:
  "isFatal r \<Longrightarrow>
     notifyException r s =
       (let s3 = s\<lparr>g_currentPolicy := \<lparr>isFatal = True,
                       asyncSafety = asyncSafety (g_currentPolicy s) \<or> asyncSafety r\<rparr>,
                    g_crashedDuringExceptionHandling :=
                       g_crashedDuringExceptionHandling s \<or> isFatal (g_currentPolicy s)\<rparr>
        in if g_crashedDuringExceptionHandling s \<or> isFatal (g_currentPolicy s)
           then map_option (\<lambda>s4. (True, s4)) (kscm_disableAllMonitors s3)
           else Some (False, s3))"
proof -
  have frame: "\<And>t t'. kscm_disableAllMonitors t = Some t' \<Longrightarrow>
      g_crashedDuringExceptionHandling t' = g_crashedDuringExceptionHandling t"
    by (drule disableAll_frame(1)) (erule ssubst, simp)
  show ?thesis if "isFatal r"
    using that
    apply (cases "g_currentPolicy s")
    apply (cases s)
    apply (auto simp: notifyException_def Let_def map_option_case split: option.splits dest: frame)
    done
qed

lemma disable_loop_None_cong:
  "g_monitors s = g_monitors t \<Longrightarrow>
     (kscm_disableAllMonitors_loop i s = None) = (kscm_disableAllMonitors_loop i t = None)"
proof (induction i s arbitrary: t rule: kscm_disableAllMonitors_loop.induct)
  case (1 i s)
  show ?case
  proof (cases "i < count (g_monitors s)")
    case False
    with "1.prems" show ?thesis
      by (simp add: kscm_disableAllMonitors_loop.simps)
  next
    case True
    show ?thesis
    proof (cases "\<exists>api. readCell (g_monitors s) i = Some (Some api)")
      case False
      with True "1.prems" show ?thesis
        by (subst (1 2) kscm_disableAllMonitors_loop.simps) (auto split: option.splits)
    next
      case c: True
      then obtain api where c: "readCell (g_monitors s) i = Some (Some api)" by blast
      from "1.prems" have "g_monitors (api_setEnabled api False s) = g_monitors (api_setEnabled api False t)"
        by simp
      from "1.IH"[OF True c refl this] True c "1.prems" show ?thesis
        by (subst (1 2) kscm_disableAllMonitors_loop.simps) simp
    qed
  qed
qed

lemma disableAll_None_cong:
  assumes "g_monitors s = g_monitors t" and "g_monitorsLock s = g_monitorsLock t"
  shows "(kscm_disableAllMonitors s = None) = (kscm_disableAllMonitors t = None)"
proof -
  have "(kscm_disableAllMonitors_loop 0 (s\<lparr>g_monitorsLock := True\<rparr>) = None) =
        (kscm_disableAllMonitors_loop 0 (t\<lparr>g_monitorsLock := True\<rparr>) = None)"
    using assms(1) by (intro disable_loop_None_cong) simp
  with assms(2) show ?thesis
    by (simp add: kscm_disableAllMonitors_def os_unfair_lock_lock_def)
qed

lemma notifyException_None:
  "(notifyException r s = None) =
     (isFatal r \<and> (g_crashedDuringExceptionHandling s \<or> isFatal (g_currentPolicy s)) \<and>
      kscm_disableAllMonitors s = None)"
proof (cases "isFatal r")
  case False
  then show ?thesis by (simp add: notifyException_nonfatal)
next
  case True
  have "\<And>p c. (kscm_disableAllMonitors
           (s\<lparr>g_currentPolicy := p, g_crashedDuringExceptionHandling := c\<rparr>) = None) =
        (kscm_disableAllMonitors s = None)"
    by (rule disableAll_None_cong) simp_all
  with True show ?thesis
    by (simp add: notifyException_fatal Let_def)
qed

lemma notifyException_Some:
  assumes "notifyException r s = Some (c, s')"
  shows "policyState s' =
           (if isFatal r
            then (True, asyncSafety (g_currentPolicy s) \<or> asyncSafety r,
                  g_crashedDuringExceptionHandling s \<or> isFatal (g_currentPolicy s))
            else (isFatal (g_currentPolicy s), asyncSafety (g_currentPolicy s) \<or> asyncSafety r,
                  g_crashedDuringExceptionHandling s))"
    and "g_monitors s' = g_monitors s"
    and "g_monitorsLock s' = g_monitorsLock s"
    and "c = (isFatal r \<and> g_crashedDuringExceptionHandling s')"
proof -
  have frame: "\<And>t t'. kscm_disableAllMonitors t = Some t' \<Longrightarrow>
      g_crashedDuringExceptionHandling t' = g_crashedDuringExceptionHandling t \<and>
      g_currentPolicy t' = g_currentPolicy t \<and> g_monitors t' = g_monitors t \<and>
      g_monitorsLock t' = g_monitorsLock t"
    by (drule disableAll_frame(1)) (erule ssubst, simp)
  show "policyState s' =
           (if isFatal r
            then (True, asyncSafety (g_currentPolicy s) \<or> asyncSafety r,
                  g_crashedDuringExceptionHandling s \<or> isFatal (g_currentPolicy s))
            else (isFatal (g_currentPolicy s), asyncSafety (g_currentPolicy s) \<or> asyncSafety r,
                  g_crashedDuringExceptionHandling s))"
    using assms
    by (cases "isFatal r")
      (auto simp: notifyException_nonfatal notifyException_fatal Let_def policyState_def
        split: if_splits dest!: frame)
  show "g_monitors s' = g_monitors s"
    using assms
    by (cases "isFatal r")
      (auto simp: notifyException_nonfatal notifyException_fatal Let_def
        split: if_splits dest!: frame)
  show "g_monitorsLock s' = g_monitorsLock s"
    using assms
    by (cases "isFatal r")
      (auto simp: notifyException_nonfatal notifyException_fatal Let_def
        split: if_splits dest!: frame)
  show "c = (isFatal r \<and> g_crashedDuringExceptionHandling s')"
    using assms
    by (cases "isFatal r")
      (auto simp: notifyException_nonfatal notifyException_fatal Let_def
        split: if_splits dest!: frame)
qed

lemma notifyTwice_None:
  "(notifyTwice r1 r2 s = None) =
     (kscm_disableAllMonitors s = None \<and>
      ((isFatal r1 \<or> isFatal r2) \<and>
         (g_crashedDuringExceptionHandling s \<or> isFatal (g_currentPolicy s)) \<or>
       isFatal r1 \<and> isFatal r2))"
proof (cases "notifyException r1 s")
  case None
  then have "isFatal r1 \<and>
      (g_crashedDuringExceptionHandling s \<or> isFatal (g_currentPolicy s)) \<and>
      kscm_disableAllMonitors s = None"
    by (simp add: notifyException_None)
  then show ?thesis
    unfolding notifyTwice_def None by auto
next
  case (Some x)
  obtain c s1 where x: "x = (c, s1)" by (cases x)
  note n1 = notifyException_Some[OF Some[unfolded x]]
  have d: "(kscm_disableAllMonitors s1 = None) = (kscm_disableAllMonitors s = None)"
    using n1(2,3) by (rule disableAll_None_cong)
  have notNone: "\<not> (isFatal r1 \<and>
      (g_crashedDuringExceptionHandling s \<or> isFatal (g_currentPolicy s)) \<and>
      kscm_disableAllMonitors s = None)"
  proof
    assume "isFatal r1 \<and>
      (g_crashedDuringExceptionHandling s \<or> isFatal (g_currentPolicy s)) \<and>
      kscm_disableAllMonitors s = None"
    then have "notifyException r1 s = None" by (simp only: notifyException_None)
    with Some show False by simp
  qed
  from n1(1) notNone show ?thesis
    unfolding notifyTwice_def Some x
    by (auto simp: notifyException_None d policyState_def split: if_splits)
qed

lemma notifyTwice_Some:
  assumes "notifyTwice r1 r2 s = Some s2"
  shows "policyState s2 =
     (isFatal r1 \<or> isFatal r2 \<or> isFatal (g_currentPolicy s),
      asyncSafety (g_currentPolicy s) \<or> asyncSafety r1 \<or> asyncSafety r2,
      g_crashedDuringExceptionHandling s \<or>
        (isFatal r1 \<or> isFatal r2) \<and> isFatal (g_currentPolicy s) \<or> isFatal r1 \<and> isFatal r2)"
proof -
  from assms obtain c1 s1 c2 where
    a: "notifyException r1 s = Some (c1, s1)" and b: "notifyException r2 s1 = Some (c2, s2)"
    by (auto simp: notifyTwice_def split: option.splits)
  from notifyException_Some(1)[OF a] notifyException_Some(1)[OF b] show ?thesis
    by (auto simp: policyState_def split: if_splits)
qed

section \<open>The notification protocol\<close>

lemma registryOk_threeMonitors: "registryOk threeMonitors"
  by (simp add: registryOk_def registered_def threeMonitors_def startState_def)

lemma registered_threeMonitors: "registered threeMonitors = [Some 1, Some 2, Some 3]"
  by (simp add: registered_def threeMonitors_def startState_def)

text \<open>The registry of \<open>threeMonitors\<close> is the one that three adds build from the start.\<close>

lemma addAll_reaches_threeMonitors:
  "map_option (\<lambda>(results, s). (results, g_monitors s, calls s, g_areMonitorsInitialized s))
     (addAll [Some 1, Some 2, Some 3] startState) =
   Some ([True, True, True], g_monitors threeMonitors, calls threeMonitors,
         g_areMonitorsInitialized threeMonitors)"
  by code_simp

text \<open>
  C8: \<open>notifyException\<close> ORs the recommended \<open>asyncSafety\<close> into the policy whenever it
  returns, so it never clears it; for a recommendation that is not fatal it returns false
  and changes nothing but that field: \<open>isFatal\<close> keeps its value, no monitor and no
  callback is called.
\<close>

theorem notifyException_asyncSafety_sticky:
  "(\<forall>c s'. notifyException r s = Some (c, s') \<longrightarrow>
      asyncSafety (g_currentPolicy s') = (asyncSafety (g_currentPolicy s) \<or> asyncSafety r)) \<and>
   (\<not> isFatal r \<longrightarrow>
      notifyException r s =
        Some (False, s\<lparr>g_currentPolicy := (g_currentPolicy s)
                \<lparr>asyncSafety := asyncSafety (g_currentPolicy s) \<or> asyncSafety r\<rparr>\<rparr>))"
proof (intro conjI allI impI)
  fix c s'
  assume "notifyException r s = Some (c, s')"
  from notifyException_Some(1)[OF this]
  show "asyncSafety (g_currentPolicy s') = (asyncSafety (g_currentPolicy s) \<or> asyncSafety r)"
    by (simp add: policyState_def split: if_splits)
next
  assume "\<not> isFatal r"
  then show "notifyException r s =
        Some (False, s\<lparr>g_currentPolicy := (g_currentPolicy s)
                \<lparr>asyncSafety := asyncSafety (g_currentPolicy s) \<or> asyncSafety r\<rparr>\<rparr>)"
    by (rule notifyException_nonfatal)
qed

theorem notifyException_asyncSafety_sticky_witness:
  "\<not> isFatal nonFatalRecommendation \<and>
   notifyException nonFatalRecommendation threeMonitors =
     Some (False, threeMonitors\<lparr>g_currentPolicy := \<lparr>isFatal = False, asyncSafety = True\<rparr>\<rparr>) \<and>
   notifyException fatalRecommendation threeMonitors =
     Some (False, threeMonitors\<lparr>g_currentPolicy := \<lparr>isFatal = True, asyncSafety = True\<rparr>\<rparr>) \<and>
   asyncSafety (g_currentPolicy
     (threeMonitors\<lparr>g_currentPolicy := \<lparr>isFatal = True, asyncSafety = True\<rparr>\<rparr>)) =
     (asyncSafety (g_currentPolicy threeMonitors) \<or> asyncSafety fatalRecommendation)"
proof -
  have e: "notifyException fatalRecommendation threeMonitors =
     Some (False, threeMonitors\<lparr>g_currentPolicy := \<lparr>isFatal = True, asyncSafety = True\<rparr>\<rparr>)"
    by (simp add: notifyException_def fatalRecommendation_def threeMonitors_def startState_def)
  have n: "\<not> isFatal nonFatalRecommendation"
    by (simp add: nonFatalRecommendation_def)
  from notifyException_asyncSafety_sticky[of fatalRecommendation threeMonitors] e
  have a: "asyncSafety (g_currentPolicy
     (threeMonitors\<lparr>g_currentPolicy := \<lparr>isFatal = True, asyncSafety = True\<rparr>\<rparr>)) =
     (asyncSafety (g_currentPolicy threeMonitors) \<or> asyncSafety fatalRecommendation)"
    by blast
  from notifyException_asyncSafety_sticky[of nonFatalRecommendation threeMonitors] n
  have "notifyException nonFatalRecommendation threeMonitors =
     Some (False, threeMonitors\<lparr>g_currentPolicy := (g_currentPolicy threeMonitors)
        \<lparr>asyncSafety := asyncSafety (g_currentPolicy threeMonitors) \<or>
            asyncSafety nonFatalRecommendation\<rparr>\<rparr>)"
    by blast
  then have b: "notifyException nonFatalRecommendation threeMonitors =
     Some (False, threeMonitors\<lparr>g_currentPolicy := \<lparr>isFatal = False, asyncSafety = True\<rparr>\<rparr>)"
    by (simp add: nonFatalRecommendation_def threeMonitors_def startState_def)
  from n a b e show ?thesis by blast
qed

text \<open>
  C5, as the code has it: two notifications commute on the policy state, for every pair
  of recommendations and every state (also when one order does not return: then neither
  does the other). Repeating a notification leaves \<open>isFatal\<close> and \<open>asyncSafety\<close> as one
  notification leaves them; the crashed-during-handling flag is as after one
  notification when the recommendation is not fatal, and is set when it is fatal.
\<close>

theorem notify_commutes_repeat_escalates:
  "map_option policyState (notifyTwice r1 r2 s) = map_option policyState (notifyTwice r2 r1 s) \<and>
   (\<forall>c1 s1 s2. notifyException r s = Some (c1, s1) \<longrightarrow> notifyTwice r r s = Some s2 \<longrightarrow>
      isFatal (g_currentPolicy s2) = isFatal (g_currentPolicy s1) \<and>
      asyncSafety (g_currentPolicy s2) = asyncSafety (g_currentPolicy s1) \<and>
      g_crashedDuringExceptionHandling s2 = (g_crashedDuringExceptionHandling s1 \<or> isFatal r))"
proof (intro conjI allI impI)
  show "map_option policyState (notifyTwice r1 r2 s) = map_option policyState (notifyTwice r2 r1 s)"
  proof (cases "notifyTwice r1 r2 s")
    case None
    then have "notifyTwice r2 r1 s = None"
      by (simp only: notifyTwice_None) blast
    with None show ?thesis by simp
  next
    case (Some a)
    then have "notifyTwice r2 r1 s \<noteq> None"
      using notifyTwice_None[of r1 r2 s] notifyTwice_None[of r2 r1 s] by auto
    then obtain b where b: "notifyTwice r2 r1 s = Some b" by blast
    from notifyTwice_Some[OF Some] notifyTwice_Some[OF b] have "policyState a = policyState b"
      by auto
    with Some b show ?thesis by simp
  qed
next
  fix c1 s1 s2
  assume one: "notifyException r s = Some (c1, s1)" and two: "notifyTwice r r s = Some s2"
  from notifyException_Some(1)[OF one] notifyTwice_Some[OF two]
  show "isFatal (g_currentPolicy s2) = isFatal (g_currentPolicy s1)"
    and "asyncSafety (g_currentPolicy s2) = asyncSafety (g_currentPolicy s1)"
    and "g_crashedDuringExceptionHandling s2 = (g_crashedDuringExceptionHandling s1 \<or> isFatal r)"
    by (auto simp: policyState_def split: if_splits)
qed

lemma notifyException_fatal_startState:
  "notifyException fatalRecommendation startState =
     Some (False, startState\<lparr>g_currentPolicy := \<lparr>isFatal = True, asyncSafety = True\<rparr>\<rparr>)"
  by (simp add: notifyException_def fatalRecommendation_def startState_def)

lemma notifyException_fatal_again:
  "notifyException fatalRecommendation
     (startState\<lparr>g_currentPolicy := \<lparr>isFatal = True, asyncSafety = True\<rparr>\<rparr>) =
     Some (True, startState\<lparr>g_currentPolicy := \<lparr>isFatal = True, asyncSafety = True\<rparr>,
                      g_crashedDuringExceptionHandling := True\<rparr>)"
  by (simp add: notifyException_def fatalRecommendation_def startState_def
      kscm_disableAllMonitors_def os_unfair_lock_lock_def os_unfair_lock_unlock_def
      kscm_disableAllMonitors_loop.simps)

lemma notifyTwice_fatal_startState:
  "notifyTwice fatalRecommendation fatalRecommendation startState =
     Some (startState\<lparr>g_currentPolicy := \<lparr>isFatal = True, asyncSafety = True\<rparr>,
                      g_crashedDuringExceptionHandling := True\<rparr>)"
  by (simp add: notifyTwice_def notifyException_fatal_startState notifyException_fatal_again)

theorem notify_commutes_repeat_escalates_witness:
  "map_option policyState (notifyTwice fatalRecommendation nonFatalRecommendation startState) =
     map_option policyState (notifyTwice nonFatalRecommendation fatalRecommendation startState) \<and>
   notifyException fatalRecommendation startState =
     Some (False, startState\<lparr>g_currentPolicy := \<lparr>isFatal = True, asyncSafety = True\<rparr>\<rparr>) \<and>
   notifyTwice fatalRecommendation fatalRecommendation startState =
     Some (startState\<lparr>g_currentPolicy := \<lparr>isFatal = True, asyncSafety = True\<rparr>,
                      g_crashedDuringExceptionHandling := True\<rparr>) \<and>
   g_crashedDuringExceptionHandling
     (startState\<lparr>g_currentPolicy := \<lparr>isFatal = True, asyncSafety = True\<rparr>,
                 g_crashedDuringExceptionHandling := True\<rparr>) =
     (g_crashedDuringExceptionHandling
        (startState\<lparr>g_currentPolicy := \<lparr>isFatal = True, asyncSafety = True\<rparr>\<rparr>) \<or>
      isFatal fatalRecommendation)"
proof -
  note t = notify_commutes_repeat_escalates[of fatalRecommendation nonFatalRecommendation
      startState fatalRecommendation]
  note a = t[THEN conjunct1]
  note b = t[THEN conjunct2, rule_format,
      OF notifyException_fatal_startState notifyTwice_fatal_startState]
  from a b notifyException_fatal_startState notifyTwice_fatal_startState
  show ?thesis by blast
qed

text \<open>
  C5 as stated fails: from the start state one fatal notification leaves the
  crashed-during-handling flag clear, the same notification made twice sets it.
\<close>

theorem notify_idempotent_counterexample:
  "map_option policyState (notifyTwice fatalRecommendation fatalRecommendation startState) =
     Some (True, True, True) \<and>
   map_option (policyState \<circ> snd) (notifyException fatalRecommendation startState) =
     Some (True, True, False)"
  unfolding notifyTwice_fatal_startState notifyException_fatal_startState
  by (simp add: policyState_def startState_def)






section \<open>Handling with the lock held or the identifiers used up\<close>

lemma handleException_stamp_fields:
  "eventID (handleException_stamp c s) = eventID c"
  "contextualInfo (handleException_stamp c s) = contextualInfo c"
  "handlingCrash (handleException_stamp c s) = (handlingCrash c \<or> isFatal (g_currentPolicy s))"
  "requiresAsyncSafety (handleException_stamp c s) = asyncSafety (g_currentPolicy s)"
  "crashedDuringCrashHandling (handleException_stamp c s) =
     (crashedDuringCrashHandling c \<or> g_crashedDuringExceptionHandling s)"
  by (simp_all add: handleException_stamp_def Let_def)

lemma handleException_held:
  "g_monitorsLock s \<Longrightarrow> handleException c s = Some (handleException_stamp c s, s)"
  by (simp add: handleException_def os_unfair_lock_trylock_def)

lemma handleAll_held:
  "g_monitorsLock s \<Longrightarrow>
     handleAll cs s = Some (map (\<lambda>c. handleException_stamp c s) cs, s)"
  by (induction cs) (simp_all add: handleException_held)

text \<open>
  C1, as the code has it: with the lock held, \<open>handleException\<close> returns after the three
  writes with which it starts (\<open>handlingCrash\<close> ORed with the policy's \<open>isFatal\<close>,
  \<open>requiresAsyncSafety\<close> set to the policy's \<open>asyncSafety\<close>, \<open>crashedDuringCrashHandling\<close>
  set when the crashed-during-handling flag is set). The event identifier and the
  monitors' sections of the context are untouched, and the state is unchanged: no monitor
  and no callback is called.
\<close>

theorem handleException_lock_held_stamps_only:
  assumes "g_monitorsLock s"
  shows "\<exists>context'. handleException context s = Some (context', s) \<and>
      eventID context' = eventID context \<and>
      contextualInfo context' = contextualInfo context \<and>
      handlingCrash context' = (handlingCrash context \<or> isFatal (g_currentPolicy s)) \<and>
      requiresAsyncSafety context' = asyncSafety (g_currentPolicy s) \<and>
      crashedDuringCrashHandling context' =
        (crashedDuringCrashHandling context \<or> g_crashedDuringExceptionHandling s)"
  using handleException_held[OF assms] by (simp add: handleException_stamp_fields)

theorem handleException_lock_held_stamps_only_witness:
  "g_monitorsLock (threeMonitors\<lparr>g_monitorsLock := True\<rparr>) \<and>
   (\<exists>context'. handleException emptyContext (threeMonitors\<lparr>g_monitorsLock := True\<rparr>) =
        Some (context', threeMonitors\<lparr>g_monitorsLock := True\<rparr>) \<and>
      eventID context' = EmptyId \<and> contextualInfo context' = [] \<and> \<not> handlingCrash context')"
proof -
  have h: "g_monitorsLock (threeMonitors\<lparr>g_monitorsLock := True\<rparr>)" by simp
  from handleException_lock_held_stamps_only[OF h, of emptyContext] h show ?thesis
    by (auto simp: emptyContext_def threeMonitors_def startState_def)
qed

text \<open>
  C1 as stated fails: with the lock held and a fatal policy, the context comes back
  with \<open>handlingCrash\<close> and \<open>requiresAsyncSafety\<close> set.
\<close>

theorem handleException_lock_held_counterexample:
  "g_monitorsLock (threeMonitors\<lparr>g_monitorsLock := True, g_currentPolicy := fatalRecommendation\<rparr>) \<and>
   handleException emptyContext
     (threeMonitors\<lparr>g_monitorsLock := True, g_currentPolicy := fatalRecommendation\<rparr>) =
     Some (emptyContext\<lparr>handlingCrash := True, requiresAsyncSafety := True\<rparr>,
           threeMonitors\<lparr>g_monitorsLock := True, g_currentPolicy := fatalRecommendation\<rparr>) \<and>
   emptyContext\<lparr>handlingCrash := True, requiresAsyncSafety := True\<rparr> \<noteq> emptyContext"
  by (simp add: handleException_held handleException_stamp_def fatalRecommendation_def
      emptyContext_def threeMonitors_def startState_def)

text \<open>
  C3: when \<open>handleException\<close> takes the lock, the policy requires async-safety and both
  pre-built identifiers are used up, it returns with the lock still held, having called
  nothing. From then on every \<open>handleException\<close> returns after its three first writes:
  the state stays as it is (no monitor and no callback is called) and the contexts keep
  their event identifier and their monitors' sections.
\<close>

theorem handleException_exhausted_keeps_lock:
  assumes "\<not> g_monitorsLock s" and "asyncSafety (g_currentPolicy s)"
    and "g_eventIdIdx s \<ge> g_eventIdCount"
  shows "handleException context s =
           Some (handleException_stamp context s, s\<lparr>g_monitorsLock := True\<rparr>) \<and>
         (\<forall>contexts. \<exists>contexts'.
            handleAll contexts (s\<lparr>g_monitorsLock := True\<rparr>) =
              Some (contexts', s\<lparr>g_monitorsLock := True\<rparr>) \<and>
            map eventID contexts' = map eventID contexts \<and>
            map contextualInfo contexts' = map contextualInfo contexts)"
proof
  show "handleException context s =
           Some (handleException_stamp context s, s\<lparr>g_monitorsLock := True\<rparr>)"
    using assms by (simp add: handleException_def os_unfair_lock_trylock_def)
next
  show "\<forall>contexts. \<exists>contexts'.
            handleAll contexts (s\<lparr>g_monitorsLock := True\<rparr>) =
              Some (contexts', s\<lparr>g_monitorsLock := True\<rparr>) \<and>
            map eventID contexts' = map eventID contexts \<and>
            map contextualInfo contexts' = map contextualInfo contexts"
  proof
    fix contexts
    have "handleAll contexts (s\<lparr>g_monitorsLock := True\<rparr>) =
        Some (map (\<lambda>c. handleException_stamp c (s\<lparr>g_monitorsLock := True\<rparr>)) contexts,
              s\<lparr>g_monitorsLock := True\<rparr>)"
      by (rule handleAll_held) simp
    then show "\<exists>contexts'.
            handleAll contexts (s\<lparr>g_monitorsLock := True\<rparr>) =
              Some (contexts', s\<lparr>g_monitorsLock := True\<rparr>) \<and>
            map eventID contexts' = map eventID contexts \<and>
            map contextualInfo contexts' = map contextualInfo contexts"
      by (simp add: handleException_stamp_fields comp_def)
  qed
qed

theorem handleException_exhausted_keeps_lock_witness:
  "\<not> g_monitorsLock (threeMonitors\<lparr>g_currentPolicy := fatalRecommendation, g_eventIdIdx := 2\<rparr>) \<and>
   asyncSafety (g_currentPolicy
     (threeMonitors\<lparr>g_currentPolicy := fatalRecommendation, g_eventIdIdx := 2\<rparr>)) \<and>
   g_eventIdIdx (threeMonitors\<lparr>g_currentPolicy := fatalRecommendation, g_eventIdIdx := 2\<rparr>)
     \<ge> g_eventIdCount \<and>
   handleException emptyContext
     (threeMonitors\<lparr>g_currentPolicy := fatalRecommendation, g_eventIdIdx := 2\<rparr>) =
     Some (emptyContext\<lparr>handlingCrash := True, requiresAsyncSafety := True\<rparr>,
           threeMonitors\<lparr>g_currentPolicy := fatalRecommendation, g_eventIdIdx := 2,
             g_monitorsLock := True\<rparr>) \<and>
   (\<exists>contexts'.
      handleAll [emptyContext, emptyContext]
        (threeMonitors\<lparr>g_currentPolicy := fatalRecommendation, g_eventIdIdx := 2,
           g_monitorsLock := True\<rparr>) =
        Some (contexts', threeMonitors\<lparr>g_currentPolicy := fatalRecommendation,
           g_eventIdIdx := 2, g_monitorsLock := True\<rparr>) \<and>
      map eventID contexts' = [EmptyId, EmptyId] \<and>
      map contextualInfo contexts' = [[], []])"
proof -
  let ?s = "threeMonitors\<lparr>g_currentPolicy := fatalRecommendation, g_eventIdIdx := 2\<rparr>"
  have h: "\<not> g_monitorsLock ?s" "asyncSafety (g_currentPolicy ?s)"
    "g_eventIdIdx ?s \<ge> g_eventIdCount"
    by (simp_all add: threeMonitors_def startState_def fatalRecommendation_def g_eventIdCount_def)
  note t = handleException_exhausted_keeps_lock[OF h, of emptyContext]
  note a = t[THEN conjunct1]
  note b = t[THEN conjunct2, rule_format, of "[emptyContext, emptyContext]"]
  have st: "handleException_stamp emptyContext ?s =
      emptyContext\<lparr>handlingCrash := True, requiresAsyncSafety := True\<rparr>"
    by (simp add: handleException_stamp_def threeMonitors_def startState_def
        fatalRecommendation_def emptyContext_def)
  from a b h show ?thesis
    unfolding st by (simp add: emptyContext_def)
qed

section \<open>Handling an event\<close>

lemma handleException_loop_done:
  "\<not> i < count (g_monitors s) \<Longrightarrow> handleException_loop i c s = Some (c, s)"
  by (simp add: handleException_loop.simps)

lemma handleException_loop_step:
  "i < count (g_monitors s) \<Longrightarrow> readCell (g_monitors s) i = Some (Some api) \<Longrightarrow>
     handleException_loop i c s =
       (if api_isEnabled api s
        then handleException_loop (i + 1) (c\<lparr>contextualInfo := contextualInfo c @ [api]\<rparr>)
               (s\<lparr>calls := calls s @ [CallAddContextualInfoToEvent api]\<rparr>)
        else handleException_loop (i + 1) c s)"
  by (subst handleException_loop.simps) (simp add: api_addContextualInfoToEvent_def)

lemma enabledAmong_cong:
  "monitorObjects s = monitorObjects t \<Longrightarrow> enabledAmong cells s = enabledAmong cells t"
  by (simp add: enabledAmong_def api_isEnabled_def cong: option.case_cong if_cong)

lemma enabledAmong_calls [simp]: "enabledAmong cells (s\<lparr>calls := x\<rparr>) = enabledAmong cells s"
  by (rule enabledAmong_cong) simp

lemma enabledAmong_Cons:
  "enabledAmong (Some a # cells) s =
     (if api_isEnabled a s then a # enabledAmong cells s else enabledAmong cells s)"
  by (simp add: enabledAmong_def)

lemma handleException_loop_result:
  "registryOk s \<Longrightarrow>
     handleException_loop i c s =
       Some (c\<lparr>contextualInfo := contextualInfo c @ enabledAmong (drop i (registered s)) s\<rparr>,
             s\<lparr>calls := calls s @
                 map CallAddContextualInfoToEvent (enabledAmong (drop i (registered s)) s)\<rparr>)"
proof (induction "count (g_monitors s) - i" arbitrary: i c s)
  case 0
  then have "\<not> i < count (g_monitors s)" by simp
  then show ?case
    by (simp add: handleException_loop_done drop_registered_done enabledAmong_def)
next
  case (Suc n)
  then have lt: "i < count (g_monitors s)" by simp
  with Suc.prems obtain api where c: "readCell (g_monitors s) i = Some (Some api)"
    using readCell_registryOk by blast
  have d: "drop i (registered s) = Some api # drop (i + 1) (registered s)"
    using lt c by (rule drop_registered)
  let ?s1 = "s\<lparr>calls := calls s @ [CallAddContextualInfoToEvent api]\<rparr>"
  have ok1: "registryOk ?s1" and reg1: "registered ?s1 = registered s"
    using Suc.prems by (simp_all add: registryOk_def registered_def)
  have n1: "n = count (g_monitors ?s1) - (i + 1)" and n0: "n = count (g_monitors s) - (i + 1)"
    using Suc.hyps(2) by simp_all
  show ?case
  proof (cases "api_isEnabled api s")
    case True
    from Suc.hyps(1)[OF n1 ok1] True show ?thesis
      unfolding handleException_loop_step[OF lt c] d reg1
      by (simp add: enabledAmong_Cons)
  next
    case False
    from Suc.hyps(1)[OF n0 Suc.prems] False show ?thesis
      unfolding handleException_loop_step[OF lt c] d
      by (simp add: enabledAmong_Cons)
  qed
qed

text \<open>
  What the rest of \<open>handleException\<close> does once the identifier is in the context, in a
  state \<open>s\<close> that holds the lock.
\<close>

lemma handleException_finish_result:
  assumes "registryOk s"
  shows "\<exists>s'. handleException_finish c s =
        Some (c\<lparr>contextualInfo := contextualInfo c @ enabledAmong (registered s) s,
                handlingCrash := False\<rparr>, s') \<and>
      s' = s\<lparr>g_monitorsLock := False, monitorObjects := monitorObjects s', calls := calls s'\<rparr> \<and>
      (\<exists>rest. calls s' = calls s @
          map CallAddContextualInfoToEvent (enabledAmong (registered s) s) @
          (case g_onExceptionEvent s of
             None \<Rightarrow> []
           | Some f \<Rightarrow> [CallOnExceptionEvent f
               (c\<lparr>contextualInfo := contextualInfo c @ enabledAmong (registered s) s\<rparr>)]) @ rest
          \<and> (\<forall>x \<in> set rest. \<exists>a. x = CallSetEnabled a False))"
proof -
  let ?c1 = "c\<lparr>contextualInfo := contextualInfo c @ enabledAmong (registered s) s\<rparr>"
  let ?cb = "case g_onExceptionEvent s of None \<Rightarrow> []
           | Some f \<Rightarrow> [CallOnExceptionEvent f ?c1]"
  let ?s3 = "s\<lparr>g_monitorsLock := False,
      calls := calls s @ map CallAddContextualInfoToEvent (enabledAmong (registered s) s) @ ?cb\<rparr>"
  have loop: "handleException_loop 0 c s =
      Some (?c1, s\<lparr>calls := calls s @
                 map CallAddContextualInfoToEvent (enabledAmong (registered s) s)\<rparr>)"
    using handleException_loop_result[OF assms, of 0 c] by simp
  have fin: "handleException_finish c s =
      map_option (\<lambda>s4. (?c1\<lparr>handlingCrash := False\<rparr>, s4))
        (if isFatal (g_currentPolicy s) \<and> \<not> g_crashedDuringExceptionHandling s
         then kscm_disableAllMonitors ?s3 else Some ?s3)"
    unfolding handleException_finish_def loop
    by (cases s; cases "g_onExceptionEvent s")
      (simp_all add: os_unfair_lock_unlock_def Let_def cong: if_cong)
  show ?thesis
  proof (cases "isFatal (g_currentPolicy s) \<and> \<not> g_crashedDuringExceptionHandling s")
    case False
    then show ?thesis
      unfolding fin by auto
  next
    case True
    have "registryOk ?s3" and "\<not> g_monitorsLock ?s3"
      using assms by (simp_all add: registryOk_def registered_def)
    then obtain s4 where d: "kscm_disableAllMonitors ?s3 = Some s4"
      using disableAll_total by blast
    note fr = disableAll_frame(1)[OF d]
    note res = disableAll_result(2)[OF d]
    have "s4 = s\<lparr>g_monitorsLock := False, monitorObjects := monitorObjects s4, calls := calls s4\<rparr>"
      by (subst fr) simp
    moreover have "calls s4 = calls s @
          map CallAddContextualInfoToEvent (enabledAmong (registered s) s) @ ?cb @
          map (\<lambda>c. CallSetEnabled (the c) False) (registered ?s3)"
      using res by simp
    moreover have "\<forall>x \<in> set (map (\<lambda>c. CallSetEnabled (the c) False) (registered ?s3)).
        \<exists>a. x = CallSetEnabled a False"
      by auto
    ultimately show ?thesis
      unfolding fin using True d by auto
  qed
qed

lemma registryOk_cong: "g_monitors s = g_monitors t \<Longrightarrow> registryOk s = registryOk t"
  by (simp add: registryOk_def registered_def)

lemma registered_cong: "g_monitors s = g_monitors t \<Longrightarrow> registered s = registered t"
  by (simp add: registered_def)

section \<open>The pool of event identifiers\<close>

lemma regenerateEventIds_result:
  "regenerateEventIds s =
     s\<lparr>g_eventIds := (g_eventIds s)
          (0 := GeneratedId (ksidGenerated s), 1 := GeneratedId (ksidGenerated s + 1)),
       g_eventIdIdx := 0, ksidGenerated := ksidGenerated s + 2\<rparr>"
proof -
  have two: "regenerateEventIds_loop (Suc (Suc 0)) t = t" for t
    by (subst regenerateEventIds_loop.simps) (simp add: g_eventIdCount_def)
  have one: "regenerateEventIds_loop (Suc 0) t =
      t\<lparr>ksidGenerated := ksidGenerated t + 1,
        g_eventIds := (g_eventIds t)(1 := GeneratedId (ksidGenerated t))\<rparr>" for t
    by (subst regenerateEventIds_loop.simps)
      (simp add: g_eventIdCount_def ksid_generate_def two)
  have zero: "regenerateEventIds_loop 0 t =
      regenerateEventIds_loop (Suc 0)
        (t\<lparr>ksidGenerated := ksidGenerated t + 1,
           g_eventIds := (g_eventIds t)(0 := GeneratedId (ksidGenerated t))\<rparr>)" for t
    by (subst regenerateEventIds_loop.simps)
      (simp add: g_eventIdCount_def ksid_generate_def)
  show ?thesis
    by (cases s) (simp add: regenerateEventIds_def zero one)
qed

lemma handleException_exhausted:
  assumes "\<not> g_monitorsLock s" and "asyncSafety (g_currentPolicy s)"
    and "g_eventIdIdx s \<ge> g_eventIdCount"
  shows "handleException c s = Some (handleException_stamp c s, s\<lparr>g_monitorsLock := True\<rparr>)"
  using assms by (simp add: handleException_def os_unfair_lock_trylock_def)

text \<open>
  One \<open>handleException\<close> that takes an identifier from the pool: the lock is free, the
  policy requires async-safety and the cursor is below the capacity.
\<close>

lemma handleException_consume:
  assumes "\<not> g_monitorsLock s" and "registryOk s" and "asyncSafety (g_currentPolicy s)"
    and "g_eventIdIdx s < g_eventIdCount"
  shows "\<exists>c' s'. handleException c s = Some (c', s') \<and>
      eventID c' = g_eventIds s (g_eventIdIdx s) \<and> \<not> handlingCrash c' \<and>
      g_eventIdIdx s' = g_eventIdIdx s + 1 \<and> g_eventIds s' = g_eventIds s \<and>
      g_currentPolicy s' = g_currentPolicy s \<and> g_monitors s' = g_monitors s \<and>
      \<not> g_monitorsLock s'"
proof -
  let ?c = "(handleException_stamp c s)\<lparr>eventID := g_eventIds s (g_eventIdIdx s)\<rparr>"
  let ?s = "s\<lparr>g_monitorsLock := True, g_eventIdIdx := g_eventIdIdx s + 1\<rparr>"
  have h: "handleException c s = handleException_finish ?c ?s"
    using assms(1,3,4) by (simp add: handleException_def os_unfair_lock_trylock_def)
  have "registryOk ?s"
    using assms(2) by (simp add: registryOk_def registered_def)
  from handleException_finish_result[OF this, of ?c]
  obtain s' where f: "handleException_finish ?c ?s =
        Some (?c\<lparr>contextualInfo := contextualInfo ?c @ enabledAmong (registered ?s) ?s,
                handlingCrash := False\<rparr>, s')"
    and s': "s' = ?s\<lparr>g_monitorsLock := False, monitorObjects := monitorObjects s',
        calls := calls s'\<rparr>"
    by blast
  have "g_eventIdIdx s' = g_eventIdIdx s + 1" "g_eventIds s' = g_eventIds s"
    "g_currentPolicy s' = g_currentPolicy s" "g_monitors s' = g_monitors s"
    "\<not> g_monitorsLock s'"
    by (subst s', simp)+
  with h f show ?thesis by simp
qed

text \<open>
  C4: after \<open>regenerateEventIds\<close> the cursor is 0 and, while the policy requires
  async-safety, exactly two calls of \<open>handleException\<close> get an identifier: the first the
  one of slot 0, the second the one of slot 1, and the two differ; both run to the end
  (the lock is free again, \<open>handlingCrash\<close> is cleared). The third finds the cursor at the
  capacity and gives up: the context keeps the event identifier it came with, and nothing
  is called.
\<close>

theorem regenerated_pool_serves_two:
  assumes "\<not> g_monitorsLock s" and "registryOk s" and "asyncSafety (g_currentPolicy s)"
  shows "g_eventIdIdx (regenerateEventIds s) = 0 \<and>
    (\<exists>c1' s1 c2' s2.
      handleException c1 (regenerateEventIds s) = Some (c1', s1) \<and>
      eventID c1' = g_eventIds (regenerateEventIds s) 0 \<and>
      g_eventIdIdx s1 = 1 \<and> \<not> g_monitorsLock s1 \<and> \<not> handlingCrash c1' \<and>
      handleException c2 s1 = Some (c2', s2) \<and>
      eventID c2' = g_eventIds (regenerateEventIds s) 1 \<and>
      g_eventIdIdx s2 = 2 \<and> \<not> g_monitorsLock s2 \<and> \<not> handlingCrash c2' \<and>
      eventID c1' \<noteq> eventID c2' \<and>
      handleException c3 s2 = Some (handleException_stamp c3 s2, s2\<lparr>g_monitorsLock := True\<rparr>) \<and>
      eventID (handleException_stamp c3 s2) = eventID c3)"
proof -
  let ?s0 = "regenerateEventIds s"
  have s0: "\<not> g_monitorsLock ?s0" "registryOk ?s0" "asyncSafety (g_currentPolicy ?s0)"
    "g_eventIdIdx ?s0 = 0" "g_eventIds ?s0 0 \<noteq> g_eventIds ?s0 1"
    using assms by (simp_all add: regenerateEventIds_result registryOk_def registered_def)
  then have "g_eventIdIdx ?s0 < g_eventIdCount" by (simp add: g_eventIdCount_def)
  from handleException_consume[OF s0(1,2,3) this, of c1]
  obtain c1' s1 where 1: "handleException c1 ?s0 = Some (c1', s1)"
    "eventID c1' = g_eventIds ?s0 0" "\<not> handlingCrash c1'" "g_eventIdIdx s1 = 1"
    "g_eventIds s1 = g_eventIds ?s0" "g_currentPolicy s1 = g_currentPolicy ?s0"
    "g_monitors s1 = g_monitors ?s0" "\<not> g_monitorsLock s1"
    using s0(4) by auto
  have s1: "registryOk s1" "asyncSafety (g_currentPolicy s1)" "g_eventIdIdx s1 < g_eventIdCount"
    using s0(2,3) 1 registryOk_cong[of s1 ?s0] by (simp_all add: g_eventIdCount_def)
  from handleException_consume[OF 1(8) s1, of c2]
  obtain c2' s2 where 2: "handleException c2 s1 = Some (c2', s2)"
    "eventID c2' = g_eventIds ?s0 1" "\<not> handlingCrash c2'" "g_eventIdIdx s2 = 2"
    "g_currentPolicy s2 = g_currentPolicy s1" "\<not> g_monitorsLock s2"
    using 1(4,5) by auto
  have "asyncSafety (g_currentPolicy s2)" "g_eventIdIdx s2 \<ge> g_eventIdCount"
    using 2 s1 by (simp_all add: g_eventIdCount_def)
  from handleException_exhausted[OF 2(6) this, of c3]
  have 3: "handleException c3 s2 =
      Some (handleException_stamp c3 s2, s2\<lparr>g_monitorsLock := True\<rparr>)" .
  from s0(4,5) 1 2 3 show ?thesis
    by (auto simp: handleException_stamp_fields)
qed

theorem regenerated_pool_serves_two_witness:
  "\<not> g_monitorsLock (threeMonitors\<lparr>g_currentPolicy := nonFatalRecommendation\<rparr>) \<and>
   registryOk (threeMonitors\<lparr>g_currentPolicy := nonFatalRecommendation\<rparr>) \<and>
   asyncSafety (g_currentPolicy (threeMonitors\<lparr>g_currentPolicy := nonFatalRecommendation\<rparr>)) \<and>
   (\<exists>c1' s1 c2' s2 c3'.
      handleException emptyContext
        (regenerateEventIds (threeMonitors\<lparr>g_currentPolicy := nonFatalRecommendation\<rparr>)) =
        Some (c1', s1) \<and>
      eventID c1' = GeneratedId 0 \<and>
      handleException emptyContext s1 = Some (c2', s2) \<and>
      eventID c2' = GeneratedId 1 \<and>
      handleException emptyContext s2 = Some (c3', s2\<lparr>g_monitorsLock := True\<rparr>) \<and>
      eventID c3' = EmptyId)"
proof -
  let ?s = "threeMonitors\<lparr>g_currentPolicy := nonFatalRecommendation\<rparr>"
  have h: "\<not> g_monitorsLock ?s" "registryOk ?s" "asyncSafety (g_currentPolicy ?s)"
    using registryOk_threeMonitors
    by (simp_all add: registryOk_def registered_def)
      (simp_all add: threeMonitors_def startState_def nonFatalRecommendation_def)
  have ids: "g_eventIds (regenerateEventIds ?s) 0 = GeneratedId 0"
    "g_eventIds (regenerateEventIds ?s) 1 = GeneratedId 1"
    by (simp_all add: regenerateEventIds_result threeMonitors_def startState_def)
  from regenerated_pool_serves_two[OF h, of emptyContext emptyContext emptyContext]
  obtain c1' s1 c2' s2 where
    "handleException emptyContext (regenerateEventIds ?s) = Some (c1', s1)"
    "eventID c1' = g_eventIds (regenerateEventIds ?s) 0"
    "handleException emptyContext s1 = Some (c2', s2)"
    "eventID c2' = g_eventIds (regenerateEventIds ?s) 1"
    "handleException emptyContext s2 =
       Some (handleException_stamp emptyContext s2, s2\<lparr>g_monitorsLock := True\<rparr>)"
    "eventID (handleException_stamp emptyContext s2) = eventID emptyContext"
    by blast
  with h ids show ?thesis
    by (simp add: emptyContext_def)
qed

section \<open>Activation\<close>

lemma enable_loop_done:
  "\<not> i < count (g_monitors s) \<Longrightarrow> kscm_activateMonitors_enable d r i s = Some s"
  by (simp add: kscm_activateMonitors_enable.simps)

lemma enable_loop_step:
  "i < count (g_monitors s) \<Longrightarrow> readCell (g_monitors s) i = Some (Some api) \<Longrightarrow>
     kscm_activateMonitors_enable d r i s =
       kscm_activateMonitors_enable d r (i + 1)
         (api_setEnabled api
            (\<not> (d \<and> (api_monitorFlags api s AND KSCrashMonitorFlagDebuggerUnsafe) \<noteq> 0) \<and>
             \<not> (r \<and> (api_monitorFlags api s AND KSCrashMonitorFlagAsyncSafe) = 0)) s)"
  by (subst kscm_activateMonitors_enable.simps) (simp add: Let_def)

lemma api_monitorFlags_setEnabled [simp]:
  "api_monitorFlags x (api_setEnabled a b s) = api_monitorFlags x s"
  by (simp add: api_monitorFlags_def api_setEnabled_def)

lemma enable_loop_result:
  "registryOk s \<Longrightarrow>
     \<exists>s'. kscm_activateMonitors_enable d r i s = Some s' \<and>
       s' = s\<lparr>monitorObjects := monitorObjects s', calls := calls s'\<rparr> \<and>
       (\<forall>x. monitorObjects s' x =
          (if Some x \<in> set (drop i (registered s))
           then (monitorObjects s x)\<lparr>isEnabled :=
             \<not> (d \<and> (api_monitorFlags x s AND KSCrashMonitorFlagDebuggerUnsafe) \<noteq> 0) \<and>
             \<not> (r \<and> (api_monitorFlags x s AND KSCrashMonitorFlagAsyncSafe) = 0)\<rparr>
           else monitorObjects s x)) \<and>
       calls s' = calls s @
         map (\<lambda>c. CallSetEnabled (the c)
           (\<not> (d \<and> (api_monitorFlags (the c) s AND KSCrashMonitorFlagDebuggerUnsafe) \<noteq> 0) \<and>
            \<not> (r \<and> (api_monitorFlags (the c) s AND KSCrashMonitorFlagAsyncSafe) = 0)))
           (drop i (registered s))"
proof (induction "count (g_monitors s) - i" arbitrary: i s)
  case 0
  then have "\<not> i < count (g_monitors s)" by simp
  then show ?case
    by (simp add: enable_loop_done drop_registered_done)
next
  case (Suc n)
  then have lt: "i < count (g_monitors s)" by simp
  with Suc.prems obtain api where c: "readCell (g_monitors s) i = Some (Some api)"
    using readCell_registryOk by blast
  have d: "drop i (registered s) = Some api # drop (i + 1) (registered s)"
    using lt c by (rule drop_registered)
  define b where "b = (\<not> (d \<and> (api_monitorFlags api s AND KSCrashMonitorFlagDebuggerUnsafe) \<noteq> 0) \<and>
             \<not> (r \<and> (api_monitorFlags api s AND KSCrashMonitorFlagAsyncSafe) = 0))"
  let ?s1 = "api_setEnabled api b s"
  have n1: "n = count (g_monitors ?s1) - (i + 1)"
    using Suc.hyps(2) by simp
  have ok1: "registryOk ?s1" using Suc.prems by simp
  from Suc.hyps(1)[OF n1 ok1] obtain s' where
    r: "kscm_activateMonitors_enable d r (i + 1) ?s1 = Some s'"
    and fr: "s' = ?s1\<lparr>monitorObjects := monitorObjects s', calls := calls s'\<rparr>"
    and mo: "\<forall>x. monitorObjects s' x =
          (if Some x \<in> set (drop (i + 1) (registered s))
           then (monitorObjects ?s1 x)\<lparr>isEnabled :=
             \<not> (d \<and> (api_monitorFlags x s AND KSCrashMonitorFlagDebuggerUnsafe) \<noteq> 0) \<and>
             \<not> (r \<and> (api_monitorFlags x s AND KSCrashMonitorFlagAsyncSafe) = 0)\<rparr>
           else monitorObjects ?s1 x)"
    and ca: "calls s' = calls ?s1 @
         map (\<lambda>c. CallSetEnabled (the c)
           (\<not> (d \<and> (api_monitorFlags (the c) s AND KSCrashMonitorFlagDebuggerUnsafe) \<noteq> 0) \<and>
            \<not> (r \<and> (api_monitorFlags (the c) s AND KSCrashMonitorFlagAsyncSafe) = 0)))
           (drop (i + 1) (registered s))"
    by (auto simp del: api_setEnabled_def)
  have "kscm_activateMonitors_enable d r i s = Some s'"
    using r by (simp add: enable_loop_step[OF lt c] b_def)
  moreover have "s' = s\<lparr>monitorObjects := monitorObjects s', calls := calls s'\<rparr>"
    by (subst fr) (simp add: api_setEnabled_def)
  moreover have "\<forall>x. monitorObjects s' x =
          (if Some x \<in> set (drop i (registered s))
           then (monitorObjects s x)\<lparr>isEnabled :=
             \<not> (d \<and> (api_monitorFlags x s AND KSCrashMonitorFlagDebuggerUnsafe) \<noteq> 0) \<and>
             \<not> (r \<and> (api_monitorFlags x s AND KSCrashMonitorFlagAsyncSafe) = 0)\<rparr>
           else monitorObjects s x)"
    unfolding d using mo by (auto simp: api_setEnabled_def b_def)
  moreover have "calls s' = calls s @
         map (\<lambda>c. CallSetEnabled (the c)
           (\<not> (d \<and> (api_monitorFlags (the c) s AND KSCrashMonitorFlagDebuggerUnsafe) \<noteq> 0) \<and>
            \<not> (r \<and> (api_monitorFlags (the c) s AND KSCrashMonitorFlagAsyncSafe) = 0)))
           (drop i (registered s))"
    unfolding d using ca by (simp add: api_setEnabled_def b_def)
  ultimately show ?case by blast
qed

lemma collect_loop_done:
  "\<not> i < count (g_monitors s) \<Longrightarrow>
     kscm_activateMonitors_collect hb i acc any s = Some (acc, any)"
  by (simp add: kscm_activateMonitors_collect.simps)

lemma collect_loop_step:
  "i < count (g_monitors s) \<Longrightarrow> readCell (g_monitors s) i = Some (Some api) \<Longrightarrow>
     kscm_activateMonitors_collect hb i acc any s =
       (if api_isEnabled api s
        then kscm_activateMonitors_collect hb (i + 1) (if hb then acc @ [api] else acc) True s
        else kscm_activateMonitors_collect hb (i + 1) acc any s)"
  by (subst kscm_activateMonitors_collect.simps) simp

lemma collect_loop_result:
  "registryOk s \<Longrightarrow>
     kscm_activateMonitors_collect hb i acc any s =
       Some (if hb then acc @ enabledAmong (drop i (registered s)) s else acc,
             any \<or> enabledAmong (drop i (registered s)) s \<noteq> [])"
proof (induction "count (g_monitors s) - i" arbitrary: i acc any hb)
  case 0
  then have "\<not> i < count (g_monitors s)" by simp
  then show ?case
    by (simp add: collect_loop_done drop_registered_done enabledAmong_def)
next
  case (Suc n)
  then have lt: "i < count (g_monitors s)" by simp
  with Suc.prems obtain api where c: "readCell (g_monitors s) i = Some (Some api)"
    using readCell_registryOk by blast
  have d: "drop i (registered s) = Some api # drop (i + 1) (registered s)"
    using lt c by (rule drop_registered)
  have n0: "n = count (g_monitors s) - Suc i"
    using Suc.hyps(2) by simp
  show ?case
    unfolding collect_loop_step[OF lt c] d
    by (simp add: Suc.hyps(1)[OF n0 Suc.prems] enabledAmong_Cons)
qed

lemma notify_loop_result:
  "kscm_activateMonitors_notify xs s = s\<lparr>calls := calls s @ map CallNotifyPostSystemEnable xs\<rparr>"
  by (induction xs arbitrary: s) (simp_all add: api_notifyPostSystemEnable_def)

lemma enabledAmong_nonempty:
  "(enabledAmong cells s \<noteq> []) = (\<exists>a. Some a \<in> set cells \<and> api_isEnabled a s)"
  by (induction cells) (auto simp: enabledAmong_def split: option.splits)

lemma registryOk_init: "registryOk s \<Longrightarrow> registryOk (init s)"
  by (simp add: init_def registryOk_def registered_def)

text \<open>
  C6: with the lock free and a well-formed registry \<open>kscm_activateMonitors\<close> returns,
  and then a registered monitor reports enabled exactly when it is not the case that the
  debugger probe is true and the monitor is flagged DebuggerUnsafe, and not the case that
  the policy requires async-safety and the monitor lacks the AsyncSafe flag. The result
  is true exactly when some registered monitor reports enabled.
\<close>

theorem activateMonitors_enables_by_flags:
  assumes "\<not> g_monitorsLock s" and "registryOk s"
  shows "\<exists>active s'. kscm_activateMonitors isBeingTraced mallocOk s = Some (active, s') \<and>
     registered s' = registered (init s) \<and> \<not> g_monitorsLock s' \<and>
     (\<forall>a. api_monitorFlags a s' = api_monitorFlags a s) \<and>
     (\<forall>a. Some a \<in> set (registered s') \<longrightarrow>
        api_isEnabled a s' =
          (\<not> (isBeingTraced \<and>
               (api_monitorFlags a s AND KSCrashMonitorFlagDebuggerUnsafe) \<noteq> 0) \<and>
           \<not> (asyncSafety (g_currentPolicy s) \<and>
               (api_monitorFlags a s AND KSCrashMonitorFlagAsyncSafe) = 0))) \<and>
     active = (\<exists>a. Some a \<in> set (registered s') \<and> api_isEnabled a s')"
proof -
  let ?r = "asyncSafety (g_currentPolicy s)"
  define s2 where "s2 = regenerateEventIds ((regenerateEventIds (init s))\<lparr>g_monitorsLock := True\<rparr>)"
  have pol: "asyncSafety (g_currentPolicy (init s)) = ?r"
    by (simp add: init_def)
  have lock: "os_unfair_lock_lock (regenerateEventIds (init s)) =
      Some ((regenerateEventIds (init s))\<lparr>g_monitorsLock := True\<rparr>)"
    using assms(1) by (simp add: os_unfair_lock_lock_def regenerateEventIds_result init_def)
  have g2: "g_monitors s2 = g_monitors (init s)"
    and m2: "monitorObjects s2 = monitorObjects s"
    by (simp_all add: s2_def regenerateEventIds_result init_def)
  have ok2: "registryOk s2"
    using registryOk_init[OF assms(2)] registryOk_cong[OF g2] by simp
  have reg2: "registered s2 = registered (init s)"
    using g2 by (rule registered_cong)
  have fl2: "api_monitorFlags a s2 = api_monitorFlags a s" for a
    by (simp add: api_monitorFlags_def m2)
  from enable_loop_result[OF ok2, of isBeingTraced ?r 0]
  obtain s3 where
    e: "kscm_activateMonitors_enable isBeingTraced ?r 0 s2 = Some s3"
    and fr: "s3 = s2\<lparr>monitorObjects := monitorObjects s3, calls := calls s3\<rparr>"
    and mo: "\<forall>x. monitorObjects s3 x =
          (if Some x \<in> set (registered s2)
           then (monitorObjects s2 x)\<lparr>isEnabled :=
             \<not> (isBeingTraced \<and>
                 (api_monitorFlags x s2 AND KSCrashMonitorFlagDebuggerUnsafe) \<noteq> 0) \<and>
             \<not> (?r \<and> (api_monitorFlags x s2 AND KSCrashMonitorFlagAsyncSafe) = 0)\<rparr>
           else monitorObjects s2 x)"
    by auto
  have g3: "g_monitors s3 = g_monitors s2"
    by (subst fr) simp
  have ok3: "registryOk s3"
    using ok2 registryOk_cong[OF g3] by simp
  have reg3: "registered s3 = registered (init s)"
    using registered_cong[OF g3] reg2 by simp
  define s' where "s' = kscm_activateMonitors_notify
      (if count (g_monitors s3) > 0 \<and> mallocOk then enabledAmong (registered s3) s3 else [])
      (os_unfair_lock_unlock s3)"
  have run: "kscm_activateMonitors isBeingTraced mallocOk s =
      Some (enabledAmong (registered s3) s3 \<noteq> [], s')"
    unfolding kscm_activateMonitors_def Let_def pol lock
    by (simp add: s2_def[symmetric] e collect_loop_result[OF ok3] s'_def)
  have s'g: "g_monitors s' = g_monitors s3" and s'm: "monitorObjects s' = monitorObjects s3"
    and s'l: "\<not> g_monitorsLock s'"
    by (simp_all add: s'_def notify_loop_result os_unfair_lock_unlock_def)
  have reg': "registered s' = registered (init s)"
    using registered_cong[OF s'g] reg3 by simp
  have flags: "\<forall>a. api_monitorFlags a s' = api_monitorFlags a s"
    using mo by (simp add: api_monitorFlags_def s'm m2)
  have en: "\<forall>a. Some a \<in> set (registered s') \<longrightarrow>
        api_isEnabled a s' =
          (\<not> (isBeingTraced \<and>
               (api_monitorFlags a s AND KSCrashMonitorFlagDebuggerUnsafe) \<noteq> 0) \<and>
           \<not> (?r \<and> (api_monitorFlags a s AND KSCrashMonitorFlagAsyncSafe) = 0))"
    using mo by (simp add: api_isEnabled_def s'm reg' reg2 fl2)
  have "(enabledAmong (registered s3) s3 \<noteq> []) =
      (\<exists>a. Some a \<in> set (registered s') \<and> api_isEnabled a s')"
    by (simp add: enabledAmong_nonempty reg' reg3 api_isEnabled_def s'm)
  with run reg' s'l flags en show ?thesis
    by blast
qed

lemma init_threeMonitors: "init threeMonitors = threeMonitors"
  by (simp add: init_def threeMonitors_def startState_def)

theorem activateMonitors_enables_by_flags_witness:
  "\<not> g_monitorsLock threeMonitors \<and> registryOk threeMonitors \<and>
   Some 1 \<in> set (registered threeMonitors) \<and> Some 2 \<in> set (registered threeMonitors) \<and>
   (\<exists>s'. kscm_activateMonitors True True threeMonitors = Some (True, s') \<and>
      api_isEnabled 1 s' \<and> \<not> api_isEnabled 2 s' \<and> api_isEnabled 3 s')"
proof -
  have h: "\<not> g_monitorsLock threeMonitors"
    by (simp add: threeMonitors_def startState_def)
  have f: "api_monitorFlags 1 threeMonitors = 1" "api_monitorFlags 2 threeMonitors = 2"
    "api_monitorFlags 3 threeMonitors = 0" "\<not> asyncSafety (g_currentPolicy threeMonitors)"
    by (simp_all add: api_monitorFlags_def threeMonitors_def startState_def exampleObjects_def)
  from activateMonitors_enables_by_flags[OF h registryOk_threeMonitors, of True True]
  obtain active s' where
    r: "kscm_activateMonitors True True threeMonitors = Some (active, s')"
    and reg: "registered s' = registered threeMonitors"
    and en: "\<forall>a. Some a \<in> set (registered s') \<longrightarrow>
        api_isEnabled a s' =
          (\<not> (True \<and>
               (api_monitorFlags a threeMonitors AND KSCrashMonitorFlagDebuggerUnsafe) \<noteq> 0) \<and>
           \<not> (asyncSafety (g_currentPolicy threeMonitors) \<and>
               (api_monitorFlags a threeMonitors AND KSCrashMonitorFlagAsyncSafe) = 0))"
    and act: "active = (\<exists>a. Some a \<in> set (registered s') \<and> api_isEnabled a s')"
    unfolding init_threeMonitors by blast
  have e1: "api_isEnabled 1 s'" and e2: "\<not> api_isEnabled 2 s'" and e3: "api_isEnabled 3 s'"
    using en f
    by (simp_all add: reg registered_threeMonitors KSCrashMonitorFlagDebuggerUnsafe_def
        KSCrashMonitorFlagAsyncSafe_def)
  have "active"
    unfolding act using e1 by (auto simp: reg registered_threeMonitors)
  with r e1 e2 e3 h registryOk_threeMonitors show ?thesis
    by (auto simp: registered_threeMonitors)
qed

section \<open>Removing a monitor\<close>

lemma removeMonitor_loop_done:
  "\<not> i < count (g_monitors s) \<Longrightarrow> removeMonitor_loop i api s = Some s"
  by (subst removeMonitor_loop.simps) simp

lemma removeMonitor_loop_skip:
  "i < count (g_monitors s) \<Longrightarrow> readCell (g_monitors s) i = Some c \<Longrightarrow> c \<noteq> Some api \<Longrightarrow>
     removeMonitor_loop i api s = removeMonitor_loop (i + 1) api s"
  by (subst removeMonitor_loop.simps) simp

lemma removeMonitor_loop_found:
  assumes "i < count (g_monitors s)" and "readCell (g_monitors s) i = Some (Some api)"
    and "count (g_monitors s) \<le> length (apis (g_monitors s))"
  shows "removeMonitor_loop i api s =
     Some ((api_setEnabled api False s)
        \<lparr>g_monitors := (g_monitors s)
           \<lparr>apis := (apis (g_monitors s))
               [i := apis (g_monitors s) ! (count (g_monitors s) - 1),
                count (g_monitors s) - 1 := None],
            count := count (g_monitors s) - 1\<rparr>\<rparr>)"
  using assms
  by (subst removeMonitor_loop.simps) (simp add: readCell_def writeCell_def Let_def)

lemma removeMonitor_loop_absent:
  "registryOk s \<Longrightarrow> Some api \<notin> set (drop i (registered s)) \<Longrightarrow>
     removeMonitor_loop i api s = Some s"
proof (induction "count (g_monitors s) - i" arbitrary: i)
  case 0
  then show ?case by (simp add: removeMonitor_loop_done)
next
  case (Suc n)
  then have lt: "i < count (g_monitors s)" by simp
  with Suc.prems(1) obtain a where c: "readCell (g_monitors s) i = Some (Some a)"
    using readCell_registryOk by blast
  have d: "drop i (registered s) = Some a # drop (i + 1) (registered s)"
    using lt c by (rule drop_registered)
  with Suc.prems(2) have ne: "Some a \<noteq> Some api"
    and rest: "Some api \<notin> set (drop (i + 1) (registered s))"
    by auto
  have "n = count (g_monitors s) - (i + 1)" using Suc.hyps(2) by simp
  from Suc.hyps(1)[OF this Suc.prems(1) rest] show ?case
    by (simp add: removeMonitor_loop_skip[OF lt c ne])
qed

lemma kscm_removeMonitor_absent:
  assumes "\<not> g_monitorsLock s" and "registryOk s" and "Some p \<notin> set (registered s)"
  shows "kscm_removeMonitor (Some p) s = Some s"
proof -
  let ?s1 = "s\<lparr>g_monitorsLock := True\<rparr>"
  have "registryOk ?s1" and "Some p \<notin> set (drop 0 (registered ?s1))"
    using assms(2,3) by (simp_all add: registryOk_def registered_def)
  then have "removeMonitor_loop 0 p ?s1 = Some ?s1"
    by (rule removeMonitor_loop_absent)
  with assms(1) show ?thesis
    by (cases s)
      (simp add: kscm_removeMonitor_def os_unfair_lock_lock_def removeMonitor_def
        os_unfair_lock_unlock_def)
qed

text \<open>
  The first removal found at index \<open>i\<close>: the monitor is disabled, the last cell in use
  is copied over cell \<open>i\<close> and the number of cells in use drops by one.
\<close>

lemma removeMonitor_loop_present:
  assumes "registryOk s" and "i < count (g_monitors s)"
    and "registered s ! i = Some api" and "Some api \<notin> set (take i (registered s))"
  shows "removeMonitor_loop 0 api s =
     Some ((api_setEnabled api False s)
        \<lparr>g_monitors := (g_monitors s)
           \<lparr>apis := (apis (g_monitors s))
               [i := apis (g_monitors s) ! (count (g_monitors s) - 1),
                count (g_monitors s) - 1 := None],
            count := count (g_monitors s) - 1\<rparr>\<rparr>)"
proof -
  have len: "count (g_monitors s) \<le> length (apis (g_monitors s))"
    using assms(1) by (simp add: registryOk_def)
  have cell: "readCell (g_monitors s) i = Some (Some api)"
    using assms(2,3) len by (simp add: readCell_def registered_def)
  have skip: "j \<le> i \<Longrightarrow> removeMonitor_loop (i - j) api s = removeMonitor_loop i api s" for j
  proof (induction j)
    case 0
    show ?case by simp
  next
    case (Suc j)
    then have lt: "i - Suc j < i" and lt': "i - Suc j < count (g_monitors s)"
      using assms(2) by simp_all
    then obtain a where c: "readCell (g_monitors s) (i - Suc j) = Some (Some a)"
      using readCell_registryOk[OF assms(1)] by blast
    have "registered s ! (i - Suc j) = Some a"
      using c lt' by (auto simp: readCell_def registered_def split: if_splits)
    moreover have "registered s ! (i - Suc j) \<in> set (take i (registered s))"
      using lt lt' assms(2) len
      by (metis length_registered length_take min.absorb2 nat_less_le nth_mem nth_take)
    ultimately have ne: "Some a \<noteq> Some api"
      using assms(4) by auto
    have "Suc (i - Suc j) = i - j" using Suc.prems by simp
    with removeMonitor_loop_skip[OF lt' c ne] Suc show ?case by simp
  qed
  from skip[of i] removeMonitor_loop_found[OF assms(2) cell len] show ?thesis
    by simp
qed

lemma registered_after_removal:
  assumes "n \<le> length xs" and "i < n"
  shows "take (n - 1) (xs[i := xs ! (n - 1), n - 1 := None]) =
     butlast ((take n xs)[i := last (take n xs)])"
proof -
  from assms have n: "take n xs \<noteq> []" by auto
  have "length (take n xs) = n" using assms by simp
  with n have "last (take n xs) = take n xs ! (n - 1)"
    by (simp add: last_conv_nth)
  also have "\<dots> = xs ! (n - 1)"
    using assms by simp
  finally have last: "last (take n xs) = xs ! (n - 1)" .
  have "take (n - 1) (xs[i := xs ! (n - 1), n - 1 := None]) = take (n - 1) (xs[i := xs ! (n - 1)])"
    by simp
  also have "\<dots> = (take (n - 1) xs)[i := xs ! (n - 1)]"
    by (simp add: take_update_swap)
  also have "\<dots> = butlast ((take n xs)[i := xs ! (n - 1)])"
    using assms by (simp add: butlast_list_update butlast_take list_update_beyond)
  finally show ?thesis by (simp add: last)
qed

lemma kscm_removeMonitor_present:
  assumes "\<not> g_monitorsLock s" and "registryOk s" and "i < count (g_monitors s)"
    and "registered s ! i = Some p" and "Some p \<notin> set (take i (registered s))"
  shows "\<exists>s'. kscm_removeMonitor (Some p) s = Some s' \<and>
      registered s' = butlast ((registered s)[i := last (registered s)]) \<and>
      count (g_monitors s') = count (g_monitors s) - 1 \<and>
      monitorObjects s' = (monitorObjects s)(p := (monitorObjects s p)\<lparr>isEnabled := False\<rparr>) \<and>
      calls s' = calls s @ [CallSetEnabled p False] \<and>
      registryOk s' \<and> \<not> g_monitorsLock s'"
proof -
  let ?s1 = "s\<lparr>g_monitorsLock := True\<rparr>"
  let ?l = "g_monitors s"
  let ?l' = "?l\<lparr>apis := (apis ?l)[i := apis ?l ! (count ?l - 1), count ?l - 1 := None],
            count := count ?l - 1\<rparr>"
  define s' where "s' = os_unfair_lock_unlock ((api_setEnabled p False ?s1)\<lparr>g_monitors := ?l'\<rparr>)"
  have ok1: "registryOk ?s1" and reg1: "registered ?s1 = registered s"
    using assms(2) by (simp_all add: registryOk_def registered_def)
  have len: "count ?l \<le> length (apis ?l)" and cap: "capacity ?l = length (apis ?l)"
    and all: "list_all (\<lambda>c. c \<noteq> None) (registered s)"
    using assms(2) by (simp_all add: registryOk_def)
  have "removeMonitor_loop 0 p ?s1 = Some ((api_setEnabled p False ?s1)\<lparr>g_monitors := ?l'\<rparr>)"
    using removeMonitor_loop_present[OF ok1, of i p] assms(3,4,5) by (simp add: reg1)
  with assms(1) have run: "kscm_removeMonitor (Some p) s = Some s'"
    by (simp add: kscm_removeMonitor_def os_unfair_lock_lock_def removeMonitor_def s'_def)
  have reg: "registered s' = butlast ((registered s)[i := last (registered s)])"
    using registered_after_removal[OF len assms(3)]
    by (simp add: s'_def registered_def os_unfair_lock_unlock_def)
  have "set (butlast ((registered s)[i := last (registered s)])) \<subseteq> set (registered s)"
  proof -
    have ne: "registered s \<noteq> []" using assms(3) len by (auto simp: registered_def)
    have "set (butlast ((registered s)[i := last (registered s)]))
        \<subseteq> set ((registered s)[i := last (registered s)])"
      by (auto dest: in_set_butlastD)
    also have "\<dots> \<subseteq> insert (last (registered s)) (set (registered s))"
      by (rule set_update_subset_insert)
    also have "\<dots> = set (registered s)"
      using ne by auto
    finally show ?thesis .
  qed
  with all have all': "list_all (\<lambda>c. c \<noteq> None) (registered s')"
    unfolding reg by (auto simp: list_all_iff)
  have ok': "registryOk s'"
    using all' len cap
    by (simp add: registryOk_def) (simp add: s'_def os_unfair_lock_unlock_def)
  have "count (g_monitors s') = count ?l - 1"
    "monitorObjects s' = (monitorObjects s)(p := (monitorObjects s p)\<lparr>isEnabled := False\<rparr>)"
    "calls s' = calls s @ [CallSetEnabled p False]" "\<not> g_monitorsLock s'"
    by (simp_all add: s'_def os_unfair_lock_unlock_def api_setEnabled_def)
  with run reg ok' show ?thesis by blast
qed

text \<open>
  C10: \<open>kscm_removeMonitor\<close> compares descriptor addresses. A descriptor whose address
  is in no cell in use is not removed, whatever its \<open>monitorId()\<close> answers: the state is
  as before, so no monitor has received \<open>setEnabled(false)\<close>. The state changes only
  when the address is in a cell in use.
\<close>

theorem removeMonitor_by_address_only:
  assumes "\<not> g_monitorsLock s" and "registryOk s"
  shows "(Some p \<notin> set (registered s) \<longrightarrow> kscm_removeMonitor (Some p) s = Some s) \<and>
         (kscm_removeMonitor (Some p) s \<noteq> Some s \<longrightarrow> Some p \<in> set (registered s)) \<and>
         (Some p \<in> set (registered s) \<longrightarrow>
            (\<exists>s'. kscm_removeMonitor (Some p) s = Some s' \<and>
               count (g_monitors s') = count (g_monitors s) - 1 \<and>
               calls s' = calls s @ [CallSetEnabled p False]))"
proof (intro conjI impI)
  assume "Some p \<notin> set (registered s)"
  with assms show "kscm_removeMonitor (Some p) s = Some s"
    by (rule kscm_removeMonitor_absent)
next
  assume "kscm_removeMonitor (Some p) s \<noteq> Some s"
  with kscm_removeMonitor_absent[OF assms] show "Some p \<in> set (registered s)"
    by blast
next
  assume "Some p \<in> set (registered s)"
  then obtain ys zs where d: "registered s = ys @ Some p # zs" and first: "Some p \<notin> set ys"
    by (blast dest: split_list_first)
  have len: "length (registered s) = count (g_monitors s)"
    using assms(2) by (simp add: registryOk_def length_registered)
  have "length ys < count (g_monitors s)" "registered s ! length ys = Some p"
    "Some p \<notin> set (take (length ys) (registered s))"
    using first len[symmetric] by (simp_all add: d)
  from kscm_removeMonitor_present[OF assms this]
  show "\<exists>s'. kscm_removeMonitor (Some p) s = Some s' \<and>
               count (g_monitors s') = count (g_monitors s) - 1 \<and>
               calls s' = calls s @ [CallSetEnabled p False]"
    by blast
qed

theorem removeMonitor_by_address_only_witness:
  "\<not> g_monitorsLock threeMonitors \<and> registryOk threeMonitors \<and>
   Some 4 \<notin> set (registered threeMonitors) \<and> Some 2 \<in> set (registered threeMonitors) \<and>
   api_monitorId 4 threeMonitors = api_monitorId 2 threeMonitors \<and>
   kscm_removeMonitor (Some 4) threeMonitors = Some threeMonitors \<and>
   (\<exists>s'. kscm_removeMonitor (Some 2) threeMonitors = Some s' \<and>
      count (g_monitors s') = 2 \<and>
      calls s' = calls threeMonitors @ [CallSetEnabled 2 False])"
proof -
  have h: "\<not> g_monitorsLock threeMonitors"
    by (simp add: threeMonitors_def startState_def)
  have i: "api_monitorId 4 threeMonitors = api_monitorId 2 threeMonitors"
    "count (g_monitors threeMonitors) = 3"
    by (simp_all add: api_monitorId_def threeMonitors_def startState_def exampleObjects_def)
  have n: "Some 4 \<notin> set (registered threeMonitors)" "Some 2 \<in> set (registered threeMonitors)"
    by (simp_all add: registered_threeMonitors)
  note t4 = removeMonitor_by_address_only[OF h registryOk_threeMonitors, of 4]
  note t2 = removeMonitor_by_address_only[OF h registryOk_threeMonitors, of 2]
  from t4[THEN conjunct1, rule_format, OF n(1)]
    t2[THEN conjunct2, THEN conjunct2, rule_format, OF n(2)] h i n registryOk_threeMonitors
  show ?thesis by simp
qed

section \<open>Adding a monitor\<close>

lemma duplicate_loop_done:
  "\<not> i < count (g_monitors s) \<Longrightarrow> kscm_addMonitor_duplicate newId i s = Some False"
  by (subst kscm_addMonitor_duplicate.simps) simp

lemma duplicate_loop_step:
  "i < count (g_monitors s) \<Longrightarrow> readCell (g_monitors s) i = Some (Some e) \<Longrightarrow>
     kscm_addMonitor_duplicate newId i s =
       (if api_monitorId e s = newId then Some True
        else kscm_addMonitor_duplicate newId (i + 1) s)"
  by (subst kscm_addMonitor_duplicate.simps) (simp add: ksstring_safeStrcmp_def)

lemma registeredIds_drop_Cons:
  "[api_monitorId a s. Some a \<leftarrow> Some e # cells] =
     api_monitorId e s # [api_monitorId a s. Some a \<leftarrow> cells]"
  by simp

lemma duplicate_loop_result:
  "registryOk s \<Longrightarrow>
     kscm_addMonitor_duplicate newId i s =
       Some (newId \<in> set [api_monitorId a s. Some a \<leftarrow> drop i (registered s)])"
proof (induction "count (g_monitors s) - i" arbitrary: i)
  case 0
  then have "\<not> i < count (g_monitors s)" by simp
  then show ?case
    by (simp add: duplicate_loop_done drop_registered_done)
next
  case (Suc n)
  then have lt: "i < count (g_monitors s)" by simp
  with Suc.prems obtain e where c: "readCell (g_monitors s) i = Some (Some e)"
    using readCell_registryOk by blast
  have d: "drop i (registered s) = Some e # drop (Suc i) (registered s)"
    using drop_registered[OF lt c] by simp
  have "n = count (g_monitors s) - Suc i" using Suc.hyps(2) by simp
  from Suc.hyps(1)[OF this Suc.prems] show ?case
    unfolding duplicate_loop_step[OF lt c] d by auto
qed

lemma addMonitor_result:
  assumes "registryOk s"
  shows "\<exists>l. addMonitor (g_monitors s) a = Some l \<and>
      take (count l) (apis l) = registered s @ [Some a] \<and>
      count l = count (g_monitors s) + 1 \<and>
      capacity l = length (apis l) \<and> count l \<le> length (apis l)"
proof -
  let ?l = "g_monitors s"
  have cap: "capacity ?l = length (apis ?l)" and len: "count ?l \<le> length (apis ?l)"
    using assms by (simp_all add: registryOk_def)
  show ?thesis
  proof (cases "count ?l \<ge> capacity ?l")
    case False
    then have lt: "count ?l < length (apis ?l)" using cap by simp
    then show ?thesis
      using cap False
      by (simp add: addMonitor_def writeCell_def registered_def take_Suc_conv_app_nth Let_def)
  next
    case True
    then have full: "count ?l = length (apis ?l)" using cap len by simp
    define cap' where "cap' = (if capacity ?l > 0 then capacity ?l * 2 else 2)"
    have gt: "length (apis ?l) < cap'" using cap by (auto simp: cap'_def)
    have re: "realloc (apis ?l) cap' = apis ?l @ replicate (cap' - length (apis ?l)) None"
      using gt by (simp add: realloc_def)
    have lre: "length (realloc (apis ?l) cap') = cap'"
      using gt unfolding re by simp
    have "addMonitor ?l a =
        Some (?l\<lparr>capacity := cap', apis := (realloc (apis ?l) cap')[count ?l := Some a],
                count := count ?l + 1\<rparr>)"
      using True gt lre full
      by (simp add: addMonitor_def writeCell_def Let_def cap'_def[symmetric])
    moreover have "take (count ?l + 1) ((realloc (apis ?l) cap')[count ?l := Some a]) =
        registered s @ [Some a]"
      using gt full unfolding re
      by (simp add: take_Suc_conv_app_nth registered_def)
    ultimately show ?thesis
      using gt lre full by auto
  qed
qed

lemma init_fields [simp]:
  "g_monitorsLock (init s) = g_monitorsLock s"
  "monitorObjects (init s) = monitorObjects s"
  "calls (init s) = calls s"
  "g_areMonitorsInitialized (init s)"
  "api_monitorId a (init s) = api_monitorId a s"
  by (simp_all add: init_def api_monitorId_def)

lemma init_initialized: "g_areMonitorsInitialized s \<Longrightarrow> init s = s"
  by (simp add: init_def)

lemma kscm_addMonitor_result:
  assumes "\<not> g_monitorsLock s" and "registryOk s"
  shows "\<exists>added s'. kscm_addMonitor api s = Some (added, s') \<and>
     added = (\<exists>a. api = Some a \<and> api_monitorId a s \<noteq> None \<and>
                 api_monitorId a s \<notin> set (registeredIds (init s))) \<and>
     (\<not> added \<longrightarrow> s' = init s) \<and>
     (added \<longrightarrow> registered s' = registered (init s) @ [api] \<and>
        calls s' = calls s @ [CallInit (the api)] \<and>
        s' = (init s)\<lparr>g_monitors := g_monitors s', calls := calls s'\<rparr>) \<and>
     registryOk s' \<and> \<not> g_monitorsLock s' \<and> g_areMonitorsInitialized s'"
proof -
  let ?s0 = "init s"
  have ok0: "registryOk ?s0" using assms(2) by (rule registryOk_init)
  have l0: "\<not> g_monitorsLock ?s0" using assms(1) by simp
  show ?thesis
  proof (cases api)
    case None
    with ok0 l0 show ?thesis by (auto simp: kscm_addMonitor_def)
  next
    case (Some a)
    show ?thesis
    proof (cases "api_monitorId a s = None")
      case True
      with Some ok0 l0 show ?thesis by (auto simp: kscm_addMonitor_def)
    next
      case False
      let ?s1 = "?s0\<lparr>g_monitorsLock := True\<rparr>"
      have ok1: "registryOk ?s1" and reg1: "registered ?s1 = registered ?s0"
        using ok0 by (simp_all add: registryOk_def registered_def)
      have ids1: "[api_monitorId b (?s1). Some b \<leftarrow> drop 0 (registered ?s1)] = registeredIds ?s0"
        by (simp add: registeredIds_def reg1 api_monitorId_def cong: option.case_cong)
      have dup: "kscm_addMonitor_duplicate (api_monitorId a s) 0 ?s1 =
          Some (api_monitorId a s \<in> set (registeredIds ?s0))"
        using duplicate_loop_result[OF ok1, of "api_monitorId a s" 0] unfolding ids1 .
      have relock: "os_unfair_lock_unlock ?s1 = ?s0"
        using l0 by (cases ?s0) (simp add: os_unfair_lock_unlock_def)
      show ?thesis
      proof (cases "api_monitorId a s \<in> set (registeredIds ?s0)")
        case True
        with Some False l0 ok0 dup relock show ?thesis
          by (auto simp: kscm_addMonitor_def os_unfair_lock_lock_def)
      next
        case fresh: False
        let ?s2 = "api_init a ?s1"
        have ok2: "registryOk ?s2" and reg2: "registered ?s2 = registered ?s0"
          using ok1 by (simp_all add: registryOk_def registered_def api_init_def)
        from addMonitor_result[OF ok2, of a] obtain l where
          l: "addMonitor (g_monitors ?s2) a = Some l"
          "take (count l) (apis l) = registered ?s0 @ [Some a]"
          "capacity l = length (apis l)" "count l \<le> length (apis l)"
          unfolding reg2 by blast
        define s' where "s' = os_unfair_lock_unlock (?s2\<lparr>g_monitors := l\<rparr>)"
        have run: "kscm_addMonitor api s = Some (True, s')"
          using Some False l0 dup fresh l(1)
          by (simp add: kscm_addMonitor_def os_unfair_lock_lock_def s'_def Let_def)
        have reg': "registered s' = registered ?s0 @ [api]"
          using l(2) Some by (simp add: registered_def s'_def os_unfair_lock_unlock_def)
        have "list_all (\<lambda>c. c \<noteq> None) (registered ?s0)"
          using ok0 by (simp add: registryOk_def)
        then have ok': "registryOk s'"
          using l(3,4) Some unfolding registryOk_def reg'
          by (simp add: s'_def os_unfair_lock_unlock_def)
        have "calls s' = calls s @ [CallInit (the api)]" "\<not> g_monitorsLock s'"
          "g_areMonitorsInitialized s'"
          using Some by (simp_all add: s'_def os_unfair_lock_unlock_def api_init_def)
        moreover have "s' = ?s0\<lparr>g_monitors := g_monitors s', calls := calls s'\<rparr>"
          using l0 by (cases ?s0) (simp add: s'_def os_unfair_lock_unlock_def api_init_def)
        ultimately show ?thesis
          using run reg' ok' Some False fresh by auto
      qed
    qed
  qed
qed

lemma registeredIds_cong:
  "registered s = registered t \<Longrightarrow> monitorObjects s = monitorObjects t \<Longrightarrow>
     registeredIds s = registeredIds t"
  by (simp add: registeredIds_def api_monitorId_def cong: option.case_cong)

lemma registeredIds_append:
  "registered t = registered s @ [Some a] \<Longrightarrow> monitorObjects t = monitorObjects s \<Longrightarrow>
     registeredIds t = registeredIds s @ [api_monitorId a s]"
  by (simp add: registeredIds_def api_monitorId_def cong: option.case_cong)

lemma api_monitorId_cong:
  "monitorObjects t = monitorObjects s \<Longrightarrow> api_monitorId a t = api_monitorId a s"
  by (simp add: api_monitorId_def)

text \<open>Descriptors with ids that are new and differ from each other are all added.\<close>

lemma addAll_distinct:
  assumes "\<not> g_monitorsLock s" and "registryOk s" and "registered (init s) = registered s"
    and "\<forall>a \<in> set ps. api_monitorId a s \<noteq> None \<and> api_monitorId a s \<notin> set (registeredIds s)"
    and "distinct (map (\<lambda>a. api_monitorId a s) ps)"
  shows "\<exists>s'. addAll (map Some ps) s = Some (replicate (length ps) True, s') \<and>
      registered s' = registered s @ map Some ps \<and>
      calls s' = calls s @ map CallInit ps \<and>
      monitorObjects s' = monitorObjects s \<and>
      registryOk s' \<and> \<not> g_monitorsLock s' \<and> registered (init s') = registered s'"
  using assms
proof (induction ps arbitrary: s)
  case Nil
  then show ?case by simp
next
  case (Cons a ps)
  have ids0: "registeredIds (init s) = registeredIds s"
    using Cons.prems(3) by (rule registeredIds_cong) simp
  from Cons.prems(4) have fresh: "api_monitorId a s \<noteq> None"
    "api_monitorId a s \<notin> set (registeredIds (init s))"
    unfolding ids0 by simp_all
  from kscm_addMonitor_result[OF Cons.prems(1,2), of "Some a"] fresh
  obtain s1 where 1: "kscm_addMonitor (Some a) s = Some (True, s1)"
    "registered s1 = registered (init s) @ [Some a]"
    "calls s1 = calls s @ [CallInit a]"
    "s1 = (init s)\<lparr>g_monitors := g_monitors s1, calls := calls s1\<rparr>"
    "registryOk s1" "\<not> g_monitorsLock s1" "g_areMonitorsInitialized s1"
    by auto
  have mo1: "monitorObjects s1 = monitorObjects s"
    by (subst 1(4)) simp
  have ids1: "registeredIds s1 = registeredIds s @ [api_monitorId a s]"
    using 1(2) mo1 unfolding Cons.prems(3) by (rule registeredIds_append)
  have id1: "api_monitorId b s1 = api_monitorId b s" for b
    using mo1 by (rule api_monitorId_cong)
  have init1: "registered (init s1) = registered s1"
    using 1(7) by (simp add: init_initialized)
  have "\<forall>b \<in> set ps. api_monitorId b s1 \<noteq> None \<and> api_monitorId b s1 \<notin> set (registeredIds s1)"
  proof (intro ballI conjI)
    fix b
    assume b: "b \<in> set ps"
    show "api_monitorId b s1 \<noteq> None"
      using Cons.prems(4) b by (simp add: id1)
    have "api_monitorId a s \<notin> (\<lambda>a. api_monitorId a s) ` set ps"
      using Cons.prems(5) by simp
    moreover have "api_monitorId b s \<in> (\<lambda>a. api_monitorId a s) ` set ps"
      using b by (rule imageI)
    ultimately have "api_monitorId b s \<noteq> api_monitorId a s"
      by metis
    then show "api_monitorId b s1 \<notin> set (registeredIds s1)"
      using Cons.prems(4) b by (simp add: id1 ids1)
  qed
  moreover have "distinct (map (\<lambda>b. api_monitorId b s1) ps)"
    using Cons.prems(5) by (simp add: id1)
  ultimately obtain s' where 2: "addAll (map Some ps) s1 = Some (replicate (length ps) True, s')"
    "registered s' = registered s1 @ map Some ps"
    "calls s' = calls s1 @ map CallInit ps"
    "monitorObjects s' = monitorObjects s1"
    "registryOk s'" "\<not> g_monitorsLock s'" "registered (init s') = registered s'"
    using Cons.IH[OF 1(6,5) init1] by blast
  from 1(1,2,3) 2 mo1 show ?case
    by (simp add: Cons.prems(3))
qed

lemma requestedIds_Cons:
  "requestedIds (d # ds) s =
     (case d of None \<Rightarrow> []
      | Some a \<Rightarrow> (case api_monitorId a s of None \<Rightarrow> [] | Some i \<Rightarrow> [i])) @ requestedIds ds s"
  by (simp add: requestedIds_def split: option.splits)

lemma requestedIds_Nil [simp]: "requestedIds [] s = []"
  by (simp add: requestedIds_def)

lemma requestedIds_cong:
  "monitorObjects t = monitorObjects s \<Longrightarrow> requestedIds ds t = requestedIds ds s"
  by (induction ds) (simp_all add: requestedIds_Cons api_monitorId_def cong: option.case_cong)

text \<open>
  Any list of descriptors: afterwards the registered ids are the old ones and the ones
  asked for, each once, and \<open>init\<close> was called once on each descriptor that was added.
\<close>

lemma addAll_result:
  assumes "\<not> g_monitorsLock s" and "registryOk s" and "registered (init s) = registered s"
    and "distinct (registeredIds s)"
  shows "\<exists>results s' new. addAll ds s = Some (results, s') \<and>
      length results = length ds \<and>
      registered s' = registered s @ map Some new \<and>
      calls s' = calls s @ map CallInit new \<and>
      monitorObjects s' = monitorObjects s \<and>
      distinct (registeredIds s') \<and>
      set (registeredIds s') = set (registeredIds s) \<union> Some ` set (requestedIds ds s) \<and>
      registryOk s' \<and> \<not> g_monitorsLock s'"
  using assms
proof (induction ds arbitrary: s)
  case Nil
  then show ?case by (simp add: requestedIds_def)
next
  case (Cons d ds)
  have ids0: "registeredIds (init s) = registeredIds s"
    using Cons.prems(3) by (rule registeredIds_cong) simp
  from kscm_addMonitor_result[OF Cons.prems(1,2), of d]
  obtain added s1 where 1: "kscm_addMonitor d s = Some (added, s1)"
    "added = (\<exists>a. d = Some a \<and> api_monitorId a s \<noteq> None \<and>
                 api_monitorId a s \<notin> set (registeredIds s))"
    "\<not> added \<longrightarrow> s1 = init s"
    "added \<longrightarrow> registered s1 = registered s @ [d] \<and>
        calls s1 = calls s @ [CallInit (the d)] \<and>
        s1 = (init s)\<lparr>g_monitors := g_monitors s1, calls := calls s1\<rparr>"
    "registryOk s1" "\<not> g_monitorsLock s1" "g_areMonitorsInitialized s1"
    unfolding ids0 Cons.prems(3) by blast
  have mo1: "monitorObjects s1 = monitorObjects s"
  proof (cases added)
    case True
    with 1(4) have "s1 = (init s)\<lparr>g_monitors := g_monitors s1, calls := calls s1\<rparr>" by blast
    then show ?thesis by (rule ssubst) simp
  next
    case False
    with 1(3) show ?thesis by simp
  qed
  have init1: "registered (init s1) = registered s1"
    using 1(7) by (simp add: init_initialized)
  have step: "\<exists>new1. registered s1 = registered s @ map Some new1 \<and>
      calls s1 = calls s @ map CallInit new1 \<and>
      distinct (registeredIds s1) \<and>
      set (registeredIds s1) = set (registeredIds s) \<union> Some ` set (requestedIds [d] s)"
  proof (cases added)
    case True
    with 1(2) obtain a where a: "d = Some a" "api_monitorId a s \<noteq> None"
      "api_monitorId a s \<notin> set (registeredIds s)" by blast
    from True 1(4) a have r: "registered s1 = registered s @ [Some a]"
      "calls s1 = calls s @ [CallInit a]" by simp_all
    have ids1: "registeredIds s1 = registeredIds s @ [api_monitorId a s]"
      using r(1) mo1 by (rule registeredIds_append)
    have "registered s1 = registered s @ map Some [a]" "calls s1 = calls s @ map CallInit [a]"
      using r by simp_all
    moreover have "distinct (registeredIds s1)"
      using Cons.prems(4) a(3) by (simp add: ids1)
    moreover have "set (registeredIds s1) = set (registeredIds s) \<union> Some ` set (requestedIds [d] s)"
      using a by (auto simp: ids1 requestedIds_Cons requestedIds_def)
    ultimately show ?thesis by blast
  next
    case False
    with 1(3) have s1: "s1 = init s" by simp
    have ids1: "registeredIds s1 = registeredIds s"
      unfolding s1 by (rule ids0)
    have "registered s1 = registered s @ map Some []" "calls s1 = calls s @ map CallInit []"
      by (simp_all add: s1 Cons.prems(3))
    moreover have "distinct (registeredIds s1)"
      using Cons.prems(4) by (simp add: ids1)
    moreover have "set (registeredIds s1) = set (registeredIds s) \<union> Some ` set (requestedIds [d] s)"
      using False 1(2)
      by (auto simp: ids1 requestedIds_Cons requestedIds_def split: option.splits)
    ultimately show ?thesis by blast
  qed
  then obtain new1 where n1: "registered s1 = registered s @ map Some new1"
    "calls s1 = calls s @ map CallInit new1" "distinct (registeredIds s1)"
    "set (registeredIds s1) = set (registeredIds s) \<union> Some ` set (requestedIds [d] s)"
    by blast
  from Cons.IH[OF 1(6,5) init1 n1(3)]
  obtain results s' new where 2: "addAll ds s1 = Some (results, s')"
    "length results = length ds" "registered s' = registered s1 @ map Some new"
    "calls s' = calls s1 @ map CallInit new" "monitorObjects s' = monitorObjects s1"
    "distinct (registeredIds s')"
    "set (registeredIds s') = set (registeredIds s1) \<union> Some ` set (requestedIds ds s1)"
    "registryOk s'" "\<not> g_monitorsLock s'"
    by blast
  have req: "requestedIds (d # ds) s = requestedIds [d] s @ requestedIds ds s1"
    by (simp add: requestedIds_Cons requestedIds_cong[OF mo1])
  have "addAll (d # ds) s = Some (added # results, s')"
    using 1(1) 2(1) by simp
  moreover have "registered s' = registered s @ map Some (new1 @ new)"
    "calls s' = calls s @ map CallInit (new1 @ new)"
    using n1 2 by simp_all
  moreover have "set (registeredIds s') = set (registeredIds s) \<union> Some ` set (requestedIds (d # ds) s)"
    unfolding 2(7) n1(4) req by auto
  ultimately show ?case
    using 2 mo1 by (metis length_Cons)
qed

lemma registeredIds_map_Some:
  "registered s = map Some new \<Longrightarrow> registeredIds s = map (\<lambda>a. api_monitorId a s) new"
  by (simp add: registeredIds_def comp_def)

lemma callCount_append_inits:
  "distinct new \<Longrightarrow> calls s' = calls s @ map CallInit new \<Longrightarrow>
     callCount (CallInit a) s' = callCount (CallInit a) s + (if a \<in> set new then 1 else 0)"
proof -
  assume d: "distinct new" and c: "calls s' = calls s @ map CallInit new"
  have "length (filter (\<lambda>x. x = CallInit a) (map CallInit new)) = (if a \<in> set new then 1 else 0)"
    using d by (induction new) auto
  with c show ?thesis by (simp add: callCount_def)
qed

lemma registered_empty: "count (g_monitors s) = 0 \<Longrightarrow> registered s = []"
  by (simp add: registered_def)

lemma registered_init_empty:
  "count (g_monitors s) = 0 \<Longrightarrow> registered (init s) = []"
  by (simp add: registered_def init_def)

text \<open>
  C7, as the code has it: \<open>kscm_addMonitor\<close> adds a descriptor exactly when it is not \<open>NULL\<close>, its id is not
  \<open>NULL\<close> and no registered monitor has that id. A rejected add returns false and calls
  nothing; the state is the one it was called in, but for the empty array that \<open>init()\<close>
  allocates when the call is the first one of the API: the registered descriptors, the
  monitors, the policy, the identifiers, the callback and the lock are as before. An
  accepted add returns true, calls the descriptor's \<open>init\<close> once and appends the
  descriptor. Starting from an empty registry, after any list of adds the
  registry has as many monitors as there are different ids among the descriptors
  offered, no id is registered twice, and \<open>init\<close> has been called once on each
  registered descriptor and on no other; when the ids offered are not \<open>NULL\<close> and differ
  from each other, every add returns true and the registry has one monitor per add.
\<close>

theorem add_registers_each_id_once:
  assumes "\<not> g_monitorsLock s" and "registryOk s"
  shows "(\<exists>added s'. kscm_addMonitor api s = Some (added, s') \<and>
            added = (\<exists>a. api = Some a \<and> api_monitorId a s \<noteq> None \<and>
                         api_monitorId a s \<notin> set (registeredIds (init s))) \<and>
            (\<not> added \<longrightarrow> s' = init s \<and> calls s' = calls s \<and>
                s' = s\<lparr>g_monitors := g_monitors s', g_areMonitorsInitialized := True\<rparr> \<and>
                (g_areMonitorsInitialized s \<longrightarrow> s' = s) \<and>
                (g_areMonitorsInitialized s \<or> count (g_monitors s) = 0 \<longrightarrow>
                   registered s' = registered s)) \<and>
            (added \<longrightarrow> registered s' = registered (init s) @ [api] \<and>
                calls s' = calls s @ [CallInit (the api)])) \<and>
         (count (g_monitors s) = 0 \<longrightarrow>
            (\<exists>results s'. addAll ds s = Some (results, s') \<and>
               count (g_monitors s') = card (set (requestedIds ds s)) \<and>
               distinct (registeredIds s') \<and>
               (\<forall>a. callCount (CallInit a) s' =
                  callCount (CallInit a) s + (if Some a \<in> set (registered s') then 1 else 0)) \<and>
               (\<forall>ps. ds = map Some ps \<and> (\<forall>a \<in> set ps. api_monitorId a s \<noteq> None) \<and>
                     distinct (map (\<lambda>a. api_monitorId a s) ps) \<longrightarrow>
                  results = replicate (length ps) True \<and> registered s' = ds \<and>
                  count (g_monitors s') = length ps)))"
proof (intro conjI impI)
  from kscm_addMonitor_result[OF assms, of api]
  obtain added s' where 1: "kscm_addMonitor api s = Some (added, s')"
    "added = (\<exists>a. api = Some a \<and> api_monitorId a s \<noteq> None \<and>
                 api_monitorId a s \<notin> set (registeredIds (init s)))"
    "\<not> added \<longrightarrow> s' = init s"
    "added \<longrightarrow> registered s' = registered (init s) @ [api] \<and>
        calls s' = calls s @ [CallInit (the api)]"
    by blast
  have i: "init s = s\<lparr>g_monitors := g_monitors (init s), g_areMonitorsInitialized := True\<rparr>"
    by (cases s) (simp add: init_def)
  have r: "g_areMonitorsInitialized s \<or> count (g_monitors s) = 0 \<longrightarrow>
      registered (init s) = registered s"
    by (auto simp: init_initialized registered_empty registered_init_empty)
  have rejected: "\<not> added \<longrightarrow> s' = init s \<and> calls s' = calls s \<and>
      s' = s\<lparr>g_monitors := g_monitors s', g_areMonitorsInitialized := True\<rparr> \<and>
      (g_areMonitorsInitialized s \<longrightarrow> s' = s) \<and>
      (g_areMonitorsInitialized s \<or> count (g_monitors s) = 0 \<longrightarrow>
         registered s' = registered s)"
    using 1(3) i r by (auto simp: init_initialized)
  show "\<exists>added s'. kscm_addMonitor api s = Some (added, s') \<and>
            added = (\<exists>a. api = Some a \<and> api_monitorId a s \<noteq> None \<and>
                         api_monitorId a s \<notin> set (registeredIds (init s))) \<and>
            (\<not> added \<longrightarrow> s' = init s \<and> calls s' = calls s \<and>
                s' = s\<lparr>g_monitors := g_monitors s', g_areMonitorsInitialized := True\<rparr> \<and>
                (g_areMonitorsInitialized s \<longrightarrow> s' = s) \<and>
                (g_areMonitorsInitialized s \<or> count (g_monitors s) = 0 \<longrightarrow>
                   registered s' = registered s)) \<and>
            (added \<longrightarrow> registered s' = registered (init s) @ [api] \<and>
                calls s' = calls s @ [CallInit (the api)])"
  proof (rule exI[of _ added], rule exI[of _ s'], intro conjI)
    show "kscm_addMonitor api s = Some (added, s')" by (rule 1(1))
    show "added = (\<exists>a. api = Some a \<and> api_monitorId a s \<noteq> None \<and>
                         api_monitorId a s \<notin> set (registeredIds (init s)))" by (rule 1(2))
    show "\<not> added \<longrightarrow> s' = init s \<and> calls s' = calls s \<and>
                s' = s\<lparr>g_monitors := g_monitors s', g_areMonitorsInitialized := True\<rparr> \<and>
                (g_areMonitorsInitialized s \<longrightarrow> s' = s) \<and>
                (g_areMonitorsInitialized s \<or> count (g_monitors s) = 0 \<longrightarrow>
                   registered s' = registered s)" by (rule rejected)
    show "added \<longrightarrow> registered s' = registered (init s) @ [api] \<and>
                calls s' = calls s @ [CallInit (the api)]" by (rule 1(4))
  qed
next
  assume empty: "count (g_monitors s) = 0"
  have r0: "registered s = []" and ri: "registered (init s) = registered s"
    using empty by (simp_all add: registered_empty registered_init_empty)
  have ids0: "registeredIds s = []"
    by (simp add: registeredIds_def r0)
  from addAll_result[OF assms ri, of ds]
  obtain results s' new where 1: "addAll ds s = Some (results, s')"
    "registered s' = map Some new" "calls s' = calls s @ map CallInit new"
    "monitorObjects s' = monitorObjects s" "distinct (registeredIds s')"
    "set (registeredIds s') = Some ` set (requestedIds ds s)" "registryOk s'"
    by (auto simp: ids0 r0)
  have ids': "registeredIds s' = map (\<lambda>a. api_monitorId a s') new"
    using 1(2) by (rule registeredIds_map_Some)
  have dn: "distinct new"
    using 1(5) unfolding ids' by (simp add: distinct_map)
  have "count (g_monitors s') = length (registered s')"
    using 1(7) by (simp add: registryOk_def length_registered)
  also have "\<dots> = length (registeredIds s')"
    by (simp add: ids' 1(2))
  also have "\<dots> = card (set (registeredIds s'))"
    using 1(5) by (simp add: distinct_card)
  also have "\<dots> = card (set (requestedIds ds s))"
    unfolding 1(6) by (simp add: card_image)
  finally have cnt: "count (g_monitors s') = card (set (requestedIds ds s))" .
  have inits: "\<forall>a. callCount (CallInit a) s' =
      callCount (CallInit a) s + (if Some a \<in> set (registered s') then 1 else 0)"
    using callCount_append_inits[OF dn 1(3)] by (auto simp: 1(2))
  have all: "\<forall>ps. ds = map Some ps \<and> (\<forall>a \<in> set ps. api_monitorId a s \<noteq> None) \<and>
                     distinct (map (\<lambda>a. api_monitorId a s) ps) \<longrightarrow>
                  results = replicate (length ps) True \<and> registered s' = ds \<and>
                  count (g_monitors s') = length ps"
  proof (intro allI impI, elim conjE)
    fix ps
    assume ds: "ds = map Some ps" and nn: "\<forall>a \<in> set ps. api_monitorId a s \<noteq> None"
      and di: "distinct (map (\<lambda>a. api_monitorId a s) ps)"
    from nn have "\<forall>a \<in> set ps. api_monitorId a s \<noteq> None \<and>
        api_monitorId a s \<notin> set (registeredIds s)"
      by (simp add: ids0)
    from addAll_distinct[OF assms ri this di] 1(1)
    have "results = replicate (length ps) True" "registered s' = map Some ps"
      by (auto simp: ds r0)
    moreover from this(2) 1(7) have "count (g_monitors s') = length ps"
      using length_registered[of s'] by (simp add: registryOk_def)
    ultimately show "results = replicate (length ps) True \<and> registered s' = ds \<and>
                  count (g_monitors s') = length ps"
      by (simp add: ds)
  qed
  from 1(1) cnt 1(5) inits all
  show "\<exists>results s'. addAll ds s = Some (results, s') \<and>
               count (g_monitors s') = card (set (requestedIds ds s)) \<and>
               distinct (registeredIds s') \<and>
               (\<forall>a. callCount (CallInit a) s' =
                  callCount (CallInit a) s + (if Some a \<in> set (registered s') then 1 else 0)) \<and>
               (\<forall>ps. ds = map Some ps \<and> (\<forall>a \<in> set ps. api_monitorId a s \<noteq> None) \<and>
                     distinct (map (\<lambda>a. api_monitorId a s) ps) \<longrightarrow>
                  results = replicate (length ps) True \<and> registered s' = ds \<and>
                  count (g_monitors s') = length ps)"
    by blast
qed

lemma registryOk_startState: "registryOk startState"
  by (simp add: registryOk_def registered_def startState_def)

lemma registeredIds_threeMonitors:
  "registeredIds threeMonitors = [Some ''A'', Some ''B'', Some ''C'']"
  unfolding registeredIds_def registered_threeMonitors
  by (simp add: api_monitorId_def threeMonitors_def startState_def exampleObjects_def)

theorem add_registers_each_id_once_witness:
  "\<not> g_monitorsLock startState \<and> registryOk startState \<and> count (g_monitors startState) = 0 \<and>
   (\<exists>results s'.
      addAll [Some 1, Some 2, Some 3, Some 4, None, Some 9, Some 1] startState = Some (results, s') \<and>
      count (g_monitors s') = 3) \<and>
   (\<exists>s'. addAll [Some 1, Some 2, Some 3] startState = Some ([True, True, True], s') \<and>
      registered s' = [Some 1, Some 2, Some 3] \<and> count (g_monitors s') = 3 \<and>
      callCount (CallInit 2) s' = 1 \<and> callCount (CallInit 4) s' = 0) \<and>
   \<not> g_monitorsLock threeMonitors \<and> registryOk threeMonitors \<and>
   kscm_addMonitor (Some 4) threeMonitors = Some (False, threeMonitors) \<and>
   kscm_addMonitor None threeMonitors = Some (False, threeMonitors)"
proof -
  have h: "\<not> g_monitorsLock startState" "count (g_monitors startState) = 0"
    "\<not> g_monitorsLock threeMonitors" "g_areMonitorsInitialized threeMonitors"
    by (simp_all add: startState_def threeMonitors_def)
  have ids: "api_monitorId 1 startState = Some ''A''" "api_monitorId 2 startState = Some ''B''"
    "api_monitorId 3 startState = Some ''C''" "api_monitorId 4 startState = Some ''B''"
    "api_monitorId 9 startState = None" "api_monitorId 4 threeMonitors = Some ''B''"
    by (simp_all add: api_monitorId_def startState_def threeMonitors_def exampleObjects_def)
  have req: "card (set (requestedIds [Some 1, Some 2, Some 3, Some 4, None, Some 9, Some 1]
      startState)) = 3"
  proof -
    have r: "requestedIds [Some 1, Some 2, Some 3, Some 4, None, Some 9, Some 1] startState =
        [''A'', ''B'', ''C'', ''B'', ''A'']"
      by (simp add: requestedIds_def api_monitorId_def startState_def exampleObjects_def)
    show ?thesis unfolding r by (simp add: card_insert_if)
  qed
  have c0: "callCount (CallInit a) startState = 0" for a
    by (simp add: callCount_def startState_def)
  note long = add_registers_each_id_once[OF h(1) registryOk_startState,
      of None "[Some 1, Some 2, Some 3, Some 4, None, Some 9, Some 1]",
      THEN conjunct2, rule_format, OF h(2)]
  then have a: "\<exists>results s'.
      addAll [Some 1, Some 2, Some 3, Some 4, None, Some 9, Some 1] startState = Some (results, s') \<and>
      count (g_monitors s') = 3"
    unfolding req by blast
  from add_registers_each_id_once[OF h(1) registryOk_startState,
      of None "[Some 1, Some 2, Some 3]", THEN conjunct2, rule_format, OF h(2)]
  obtain results s' where 1: "addAll [Some 1, Some 2, Some 3] startState = Some (results, s')"
    "\<forall>a. callCount (CallInit a) s' =
        callCount (CallInit a) startState + (if Some a \<in> set (registered s') then 1 else 0)"
    "\<forall>ps. [Some 1, Some 2, Some 3] = map Some ps \<and>
        (\<forall>a \<in> set ps. api_monitorId a startState \<noteq> None) \<and>
        distinct (map (\<lambda>a. api_monitorId a startState) ps) \<longrightarrow>
        results = replicate (length ps) True \<and> registered s' = [Some 1, Some 2, Some 3] \<and>
        count (g_monitors s') = length ps"
    by blast
  have pre: "[Some 1, Some 2, Some 3] = map Some [1, 2, 3] \<and>
        (\<forall>a \<in> set [1, 2, 3]. api_monitorId a startState \<noteq> None) \<and>
        distinct (map (\<lambda>a. api_monitorId a startState) [1, 2, 3])"
    by (simp add: api_monitorId_def startState_def exampleObjects_def)
  from 1(3)[rule_format, OF pre] have 2: "results = [True, True, True]"
    "registered s' = [Some 1, Some 2, Some 3]" "count (g_monitors s') = 3"
    by (simp_all add: numeral_3_eq_3)
  from 1(2) have 3: "callCount (CallInit 2) s' = 1" "callCount (CallInit 4) s' = 0"
    by (simp_all add: c0 2(2))
  have b: "\<exists>s'. addAll [Some 1, Some 2, Some 3] startState = Some ([True, True, True], s') \<and>
      registered s' = [Some 1, Some 2, Some 3] \<and> count (g_monitors s') = 3 \<and>
      callCount (CallInit 2) s' = 1 \<and> callCount (CallInit 4) s' = 0"
    using 1(1) 2 3 by blast
  from add_registers_each_id_once[OF h(3) registryOk_threeMonitors, of "Some 4" "[]",
      THEN conjunct1]
  have c: "kscm_addMonitor (Some 4) threeMonitors = Some (False, threeMonitors)"
    using h(4) by (auto simp: init_threeMonitors registeredIds_threeMonitors ids)
  from add_registers_each_id_once[OF h(3) registryOk_threeMonitors, of None "[]",
      THEN conjunct1]
  have d: "kscm_addMonitor None threeMonitors = Some (False, threeMonitors)"
    using h(4) by auto
  from h a b c d registryOk_startState registryOk_threeMonitors show ?thesis
    by blast
qed

text \<open>
  C7 as stated fails: the first call of the API with a \<open>NULL\<close> descriptor returns false
  but leaves the registry initialised, with its empty array of 15 cells allocated.
\<close>

theorem add_rejected_initializes_counterexample:
  "kscm_addMonitor None startState =
     Some (False, startState\<lparr>g_areMonitorsInitialized := True,
       g_monitors := \<lparr>apis = replicate 15 None, count = 0, capacity = 15\<rparr>\<rparr>) \<and>
   g_areMonitorsInitialized
     (startState\<lparr>g_areMonitorsInitialized := True,
       g_monitors := \<lparr>apis = replicate 15 None, count = 0, capacity = 15\<rparr>\<rparr>) \<noteq>
     g_areMonitorsInitialized startState \<and>
   startState\<lparr>g_areMonitorsInitialized := True,
       g_monitors := \<lparr>apis = replicate 15 None, count = 0, capacity = 15\<rparr>\<rparr> \<noteq> startState"
proof -
  have a: "kscm_addMonitor None startState =
     Some (False, startState\<lparr>g_areMonitorsInitialized := True,
       g_monitors := \<lparr>apis = replicate 15 None, count = 0, capacity = 15\<rparr>\<rparr>)"
    by (simp add: kscm_addMonitor_def init_def INITIAL_MONITOR_CAPACITY_def startState_def)
  have b: "g_areMonitorsInitialized
     (startState\<lparr>g_areMonitorsInitialized := True,
       g_monitors := \<lparr>apis = replicate 15 None, count = 0, capacity = 15\<rparr>\<rparr>) \<noteq>
     g_areMonitorsInitialized startState"
    by (simp add: startState_def)
  then have "startState\<lparr>g_areMonitorsInitialized := True,
       g_monitors := \<lparr>apis = replicate 15 None, count = 0, capacity = 15\<rparr>\<rparr> \<noteq> startState"
    by (metis)
  with a b show ?thesis by blast
qed

text \<open>
  C9: with the monitors \<open>A\<close>, \<open>B\<close> and \<open>C\<close> added in this order to an empty registry,
  removing \<open>B\<close> leaves exactly \<open>A\<close> and \<open>C\<close> registered, and \<open>B\<close> has received
  \<open>setEnabled(false)\<close> and reports disabled. In general the removal of a registered
  descriptor disables it, puts the last registered descriptor into its cell and drops
  the last cell; the removal of a descriptor that is not registered, or of \<open>NULL\<close>,
  changes nothing.
\<close>

theorem removeMonitor_swaps_last_in:
  assumes "\<not> g_monitorsLock s" and "registryOk s"
  shows "(count (g_monitors s) = 0 \<and> api_monitorId a s = Some ''A'' \<and>
          api_monitorId b s = Some ''B'' \<and> api_monitorId c s = Some ''C'' \<longrightarrow>
            (\<exists>s3 s4. addAll [Some a, Some b, Some c] s = Some ([True, True, True], s3) \<and>
               registered s3 = [Some a, Some b, Some c] \<and>
               kscm_removeMonitor (Some b) s3 = Some s4 \<and>
               registered s4 = [Some a, Some c] \<and> count (g_monitors s4) = 2 \<and>
               \<not> api_isEnabled b s4 \<and> calls s4 = calls s3 @ [CallSetEnabled b False])) \<and>
         (\<forall>i p. i < count (g_monitors s) \<and> registered s ! i = Some p \<and>
                Some p \<notin> set (take i (registered s)) \<longrightarrow>
            (\<exists>s'. kscm_removeMonitor (Some p) s = Some s' \<and>
               registered s' = butlast ((registered s)[i := last (registered s)]) \<and>
               \<not> api_isEnabled p s' \<and> calls s' = calls s @ [CallSetEnabled p False])) \<and>
         (\<forall>p. Some p \<notin> set (registered s) \<longrightarrow> kscm_removeMonitor (Some p) s = Some s) \<and>
         kscm_removeMonitor None s = Some s"
proof (intro conjI impI allI)
  assume "count (g_monitors s) = 0 \<and> api_monitorId a s = Some ''A'' \<and>
          api_monitorId b s = Some ''B'' \<and> api_monitorId c s = Some ''C''"
  then have empty: "count (g_monitors s) = 0" and ids: "api_monitorId a s = Some ''A''"
    "api_monitorId b s = Some ''B''" "api_monitorId c s = Some ''C''"
    by simp_all
  have ri: "registered (init s) = registered s"
    using empty by (simp add: registered_empty registered_init_empty)
  have "\<forall>x \<in> set [a, b, c]. api_monitorId x s \<noteq> None \<and>
      api_monitorId x s \<notin> set (registeredIds s)"
    using ids by (simp add: registeredIds_def registered_empty[OF empty])
  moreover have "distinct (map (\<lambda>x. api_monitorId x s) [a, b, c])"
    using ids by simp
  ultimately obtain s3 where 3: "addAll (map Some [a, b, c]) s = Some (replicate (length [a, b, c]) True, s3)"
    "registered s3 = registered s @ map Some [a, b, c]"
    "registryOk s3" "\<not> g_monitorsLock s3"
    using addAll_distinct[OF assms ri, of "[a, b, c]"] by blast
  have r3: "registered s3 = [Some a, Some b, Some c]"
    using 3(2) by (simp add: registered_empty[OF empty])
  have ab: "a \<noteq> b" using ids by auto
  have len: "count (g_monitors s3) = 3"
    using 3(3) r3 length_registered[of s3] by (simp add: registryOk_def)
  have "Suc 0 < count (g_monitors s3)" "registered s3 ! Suc 0 = Some b"
    "Some b \<notin> set (take (Suc 0) (registered s3))"
    using ab by (simp_all add: len r3)
  from kscm_removeMonitor_present[OF 3(4,3) this]
  obtain s4 where 4: "kscm_removeMonitor (Some b) s3 = Some s4"
    "registered s4 = butlast ((registered s3)[Suc 0 := last (registered s3)])"
    "count (g_monitors s4) = count (g_monitors s3) - 1"
    "monitorObjects s4 = (monitorObjects s3)(b := (monitorObjects s3 b)\<lparr>isEnabled := False\<rparr>)"
    "calls s4 = calls s3 @ [CallSetEnabled b False]"
    by blast
  have "registered s4 = [Some a, Some c]" "count (g_monitors s4) = 2" "\<not> api_isEnabled b s4"
    using 4(2,3,4) by (simp_all add: r3 len api_isEnabled_def)
  with 3(1) r3 4(1,5)
  show "\<exists>s3 s4. addAll [Some a, Some b, Some c] s = Some ([True, True, True], s3) \<and>
               registered s3 = [Some a, Some b, Some c] \<and>
               kscm_removeMonitor (Some b) s3 = Some s4 \<and>
               registered s4 = [Some a, Some c] \<and> count (g_monitors s4) = 2 \<and>
               \<not> api_isEnabled b s4 \<and> calls s4 = calls s3 @ [CallSetEnabled b False]"
    by (simp add: numeral_3_eq_3)
next
  fix i p
  assume "i < count (g_monitors s) \<and> registered s ! i = Some p \<and>
                Some p \<notin> set (take i (registered s))"
  then have "i < count (g_monitors s)" "registered s ! i = Some p"
    "Some p \<notin> set (take i (registered s))"
    by simp_all
  from kscm_removeMonitor_present[OF assms this]
  show "\<exists>s'. kscm_removeMonitor (Some p) s = Some s' \<and>
               registered s' = butlast ((registered s)[i := last (registered s)]) \<and>
               \<not> api_isEnabled p s' \<and> calls s' = calls s @ [CallSetEnabled p False]"
    by (auto simp: api_isEnabled_def)
next
  fix p
  assume "Some p \<notin> set (registered s)"
  with assms show "kscm_removeMonitor (Some p) s = Some s"
    by (rule kscm_removeMonitor_absent)
next
  show "kscm_removeMonitor None s = Some s"
    by (simp add: kscm_removeMonitor_def)
qed

theorem removeMonitor_swaps_last_in_witness:
  "\<not> g_monitorsLock startState \<and> registryOk startState \<and>
   count (g_monitors startState) = 0 \<and> api_monitorId 1 startState = Some ''A'' \<and>
   api_monitorId 2 startState = Some ''B'' \<and> api_monitorId 3 startState = Some ''C'' \<and>
   (\<exists>s3 s4. addAll [Some 1, Some 2, Some 3] startState = Some ([True, True, True], s3) \<and>
      kscm_removeMonitor (Some 2) s3 = Some s4 \<and>
      registered s4 = [Some 1, Some 3] \<and> \<not> api_isEnabled 2 s4) \<and>
   \<not> g_monitorsLock threeMonitors \<and> registryOk threeMonitors \<and>
   0 < count (g_monitors threeMonitors) \<and> registered threeMonitors ! 0 = Some 1 \<and>
   Some 1 \<notin> set (take 0 (registered threeMonitors)) \<and>
   (\<exists>s'. kscm_removeMonitor (Some 1) threeMonitors = Some s' \<and>
      registered s' = [Some 3, Some 2] \<and> \<not> api_isEnabled 1 s') \<and>
   Some 4 \<notin> set (registered threeMonitors) \<and>
   kscm_removeMonitor (Some 4) threeMonitors = Some threeMonitors"
proof -
  have h: "\<not> g_monitorsLock startState" "count (g_monitors startState) = 0"
    "api_monitorId 1 startState = Some ''A''" "api_monitorId 2 startState = Some ''B''"
    "api_monitorId 3 startState = Some ''C''"
    "\<not> g_monitorsLock threeMonitors" "0 < count (g_monitors threeMonitors)"
    by (simp_all add: api_monitorId_def startState_def threeMonitors_def exampleObjects_def)
  have r: "registered threeMonitors ! 0 = Some 1"
    "Some 1 \<notin> set (take 0 (registered threeMonitors))"
    "Some 4 \<notin> set (registered threeMonitors)"
    by (simp_all add: registered_threeMonitors)
  note t0 = removeMonitor_swaps_last_in[OF h(1) registryOk_startState, of 1 2 3]
  note t3 = removeMonitor_swaps_last_in[OF h(6) registryOk_threeMonitors, of 1 2 3]
  from t0[THEN conjunct1, rule_format] h
  have a: "\<exists>s3 s4. addAll [Some 1, Some 2, Some 3] startState = Some ([True, True, True], s3) \<and>
      kscm_removeMonitor (Some 2) s3 = Some s4 \<and>
      registered s4 = [Some 1, Some 3] \<and> \<not> api_isEnabled 2 s4"
    by blast
  from t3[THEN conjunct2, THEN conjunct1, rule_format, of 0 1] h(7) r
  have b: "\<exists>s'. kscm_removeMonitor (Some 1) threeMonitors = Some s' \<and>
      registered s' = [Some 3, Some 2] \<and> \<not> api_isEnabled 1 s'"
    by (auto simp: registered_threeMonitors)
  from t3[THEN conjunct2, THEN conjunct2, THEN conjunct1, rule_format, OF r(3)]
  have c: "kscm_removeMonitor (Some 4) threeMonitors = Some threeMonitors" .
  from h r a b c registryOk_startState registryOk_threeMonitors show ?thesis
    by blast
qed

end
